theory Spec2Isabelle
  imports Main "HOL-Library.Word"
begin

section \<open>The slotted heap page of SwatDB: data model\<close>

text \<open>
  The page is a fixed buffer of \<open>PAGE_SIZE\<close> bytes. The C++ code casts a
  \<open>HeapPageHeader\<close> onto its first bytes, an array of \<open>SlotInfo\<close> onto the bytes that
  follow (the slot directory), and stores record bytes at the tail. The embedding keeps
  the three views apart: the header fields, the slot directory as a function from the
  array index to its entry, and the byte buffer as a function from the byte address to
  its value. Every field is the 32-bit unsigned integer of the source, with the
  wrap-around of \<open>std::uint32_t\<close>; pointer arithmetic on \<open>char*\<close> is arithmetic on
  \<open>nat\<close> addresses. No operation reads a directory entry at an index at or beyond
  \<open>capacity\<close> before it has written it, so what such an entry holds does not matter.
  The views share one buffer in the source. They can be kept apart here because on the
  pages the operations reach the directory ends at \<open>free_space_begin\<close>, the records
  start at \<open>free_space_end\<close>, and \<open>free_space_begin \<le> free_space_end\<close> (claim C1):
  record bytes are written and moved inside \<open>[free_space_begin, PAGE_SIZE)\<close> only
  (claims C4 and C10), and directory entries are written below \<open>free_space_begin\<close> only.
\<close>

type_synonym u32 = "32 word"
type_synonym byte = "8 word"
type_synonym PageNum = u32
type_synonym SlotId = u32

text \<open>
  Modelled from the spec: \<open>swatdb_types.h\<close> is not among the sources. The values are the
  ones of the specification's scenarios: a page of 4096 bytes, and sentinels with all
  bits set.
\<close>

definition PAGE_SIZE :: u32 where
  "PAGE_SIZE = 4096"

definition INVALID_PAGE_NUM :: PageNum where
  "INVALID_PAGE_NUM = 0xFFFFFFFF"

definition INVALID_SLOT_OFFSET :: u32 where
  "INVALID_SLOT_OFFSET = 0xFFFFFFFF"

definition INVALID_SLOT_ID :: SlotId where
  "INVALID_SLOT_ID = 0xFFFFFFFF"

text \<open>\<open>sizeof(HeapPageHeader)\<close>: six 32-bit fields. \<open>sizeof(SlotInfo)\<close>: two.\<close>

definition sizeof_HeapPageHeader :: u32 where
  "sizeof_HeapPageHeader = 24"

definition sizeof_SlotInfo :: u32 where
  "sizeof_SlotInfo = 8"

text \<open>\<open>struct SlotInfo\<close> (field \<open>length\<close> is \<open>length_rec\<close> here).\<close>

record SlotInfo =
  offset :: u32
  length_rec :: u32

text \<open>
  The page: the fields of \<open>struct HeapPageHeader\<close> (field \<open>size\<close> is \<open>size_hdr\<close>
  here), the slot directory and the byte buffer \<open>data\<close> of the base class.
\<close>

record HeapPage =
  prev_page :: PageNum
  next_page :: PageNum
  free_space_begin :: u32
  free_space_end :: u32
  size_hdr :: u32
  capacity :: u32
  slot_directory :: "nat \<Rightarrow> SlotInfo"
  data :: "nat \<Rightarrow> byte"

text \<open>
  Modelled from the spec: class \<open>Data\<close> (\<open>data.h\<close>) is not among the sources. It is a
  byte buffer with a capacity and the number of valid bytes: \<open>getSize\<close>, \<open>getCapacity\<close>,
  \<open>getData\<close>, \<open>setSize\<close>.
\<close>

record Data =
  data_size :: u32
  data_capacity :: u32
  data_bytes :: "nat \<Rightarrow> byte"

text \<open>The exceptions of \<open>swatdb_exceptions.h\<close> that the page throws.\<close>

datatype error =
    EmptyDataHeapPage
  | InsufficientSpaceHeapPage
  | InvalidSlotIdHeapPage SlotId
  | InvalidSizeData

text \<open>
  \<open>memcpy\<close> of \<open>n\<close> bytes of a source buffer to address \<open>dst\<close> of the page, and
  \<open>memmove\<close> of \<open>n\<close> bytes inside the page from \<open>src\<close> to \<open>dst\<close> (every byte
  moved is read from the buffer as it was before the call).
\<close>

definition memcpy :: "(nat \<Rightarrow> byte) \<Rightarrow> nat \<Rightarrow> (nat \<Rightarrow> byte) \<Rightarrow> nat \<Rightarrow> (nat \<Rightarrow> byte)" where
  "memcpy buf dst src n = (\<lambda>a. if dst \<le> a \<and> a < dst + n then src (a - dst) else buf a)"

definition memmove :: "(nat \<Rightarrow> byte) \<Rightarrow> nat \<Rightarrow> nat \<Rightarrow> nat \<Rightarrow> (nat \<Rightarrow> byte)" where
  "memmove buf dst src n = (\<lambda>a. if dst \<le> a \<and> a < dst + n then buf (src + (a - dst)) else buf a)"

section \<open>The operations of \<open>HeapPage\<close>\<close>

text \<open>
  A method that can throw returns its result or the exception, together with the page
  as the call leaves it: what was written before a \<open>throw\<close> stays written.
\<close>

definition initializeHeader :: "HeapPage \<Rightarrow> HeapPage" where
  "initializeHeader p =
     p\<lparr>prev_page := INVALID_PAGE_NUM,
       next_page := INVALID_PAGE_NUM,
       free_space_begin := sizeof_HeapPageHeader,
       free_space_end := PAGE_SIZE,
       size_hdr := 0,
       capacity := 0\<rparr>"

definition setNext :: "PageNum \<Rightarrow> HeapPage \<Rightarrow> HeapPage" where
  "setNext page_num p = p\<lparr>next_page := page_num\<rparr>"

definition setPrev :: "PageNum \<Rightarrow> HeapPage \<Rightarrow> HeapPage" where
  "setPrev page_num p = p\<lparr>prev_page := page_num\<rparr>"

definition getNext :: "HeapPage \<Rightarrow> PageNum" where
  "getNext p = next_page p"

definition getPrev :: "HeapPage \<Rightarrow> PageNum" where
  "getPrev p = prev_page p"

definition getFreeSpace :: "HeapPage \<Rightarrow> u32" where
  "getFreeSpace p =
     (let size = free_space_end p - free_space_begin p in
      if size_hdr p = capacity p then
        (if size \<ge> sizeof_SlotInfo then size - sizeof_SlotInfo else 0)
      else size)"

definition isFull :: "HeapPage \<Rightarrow> bool" where
  "isFull p = (size_hdr p = capacity p \<and> size_hdr p \<noteq> 0)"

definition isEmpty :: "HeapPage \<Rightarrow> bool" where
  "isEmpty p = (size_hdr p = 0)"

definition getNumRecs :: "HeapPage \<Rightarrow> u32" where
  "getNumRecs p = size_hdr p"

text \<open>\<open>_getSlotInfo\<close>: the entry of a slot id, or the exception when it is out of range.\<close>

definition priv_getSlotInfo :: "SlotId \<Rightarrow> HeapPage \<Rightarrow> error + SlotInfo" where
  "priv_getSlotInfo slot_id p =
     (if slot_id \<ge> capacity p then Inl (InvalidSlotIdHeapPage slot_id)
      else Inr (slot_directory p (unat slot_id)))"

text \<open>
  \<open>_insertRecord\<close>: lowers \<open>free_space_end\<close> by the record's length, copies the record
  there, fills the slot entry and counts the record.
\<close>

definition priv_insertRecord :: "SlotId \<Rightarrow> Data \<Rightarrow> HeapPage \<Rightarrow> (error + unit) \<times> HeapPage" where
  "priv_insertRecord slot_id record_data p =
     (if slot_id \<ge> capacity p then (Inl (InvalidSlotIdHeapPage slot_id), p)
      else
        (case priv_getSlotInfo slot_id p of
           Inl e \<Rightarrow> (Inl e, p)
         | Inr slot_info \<Rightarrow>
             (let record_length = data_size record_data;
                  p1 = p\<lparr>free_space_end := free_space_end p - record_length\<rparr>;
                  record_offset = free_space_end p1;
                  p2 = p1\<lparr>data := memcpy (data p1) (unat record_offset)
                                     (data_bytes record_data) (unat record_length)\<rparr>;
                  p3 = p2\<lparr>slot_directory := (slot_directory p2)
                           (unat slot_id := \<lparr>offset = record_offset, length_rec = record_length\<rparr>)\<rparr>
              in (Inr (), p3\<lparr>size_hdr := size_hdr p3 + 1\<rparr>))))"

text \<open>
  The loop of \<open>insertRecord\<close> that looks for a free entry, from index \<open>i\<close> on: the
  first index whose offset is \<open>INVALID_SLOT_OFFSET\<close>, or \<open>INVALID_SLOT_OFFSET\<close> itself
  (the initial value of \<open>free_slot_id\<close>) when the loop ends without a \<open>break\<close>.
\<close>

function find_free_slot :: "HeapPage \<Rightarrow> SlotId \<Rightarrow> error + SlotId" where
  "find_free_slot p i =
     (if i < capacity p then
        (case priv_getSlotInfo i p of
           Inl e \<Rightarrow> Inl e
         | Inr s \<Rightarrow>
             if offset s = INVALID_SLOT_OFFSET then Inr i
             else find_free_slot p (i + 1))
      else Inr INVALID_SLOT_OFFSET)"
  by pat_completeness auto
termination
proof (relation "measure (\<lambda>(p, i). unat (capacity p) - unat i)")
  show "wf (measure (\<lambda>(p, i). unat (capacity p) - unat i))"
    by simp
next
  fix p :: HeapPage and i :: SlotId and x2 :: SlotInfo
  assume lt: "i < capacity p"
  then have "i \<noteq> - 1"
    by (metis word_order.extremum_strict)
  then have "unat (i + 1) = Suc (unat i)"
    by (metis add.commute add_cancel_right_right eq_neg_iff_add_eq_0 unatSuc)
  moreover from lt have "unat i < unat (capacity p)"
    by (simp add: word_less_nat_alt)
  ultimately show "((p, i + 1), (p, i)) \<in> measure (\<lambda>(p, i). unat (capacity p) - unat i)"
    by simp
qed

definition insertRecord :: "Data \<Rightarrow> HeapPage \<Rightarrow> (error + SlotId) \<times> HeapPage" where
  "insertRecord record_data p =
     (let size_necessary = data_size record_data in
      if size_necessary = 0 then (Inl EmptyDataHeapPage, p)
      else if getFreeSpace p < size_necessary then (Inl InsufficientSpaceHeapPage, p)
      else
        (case find_free_slot p 0 of
           Inl e \<Rightarrow> (Inl e, p)
         | Inr found \<Rightarrow>
             (let (free_slot_id, p1) =
                    (if found = INVALID_SLOT_OFFSET then
                       (capacity p,
                        p\<lparr>capacity := capacity p + 1,
                          free_space_begin := free_space_begin p + sizeof_SlotInfo\<rparr>)
                     else (found, p))
              in case priv_insertRecord free_slot_id record_data p1 of
                   (Inl e, p2) \<Rightarrow> (Inl e, p2)
                 | (Inr u, p2) \<Rightarrow> (Inr free_slot_id, p2))))"

definition getRecord :: "SlotId \<Rightarrow> Data \<Rightarrow> HeapPage \<Rightarrow> error + Data" where
  "getRecord slot_id record_data p =
     (if slot_id \<ge> capacity p then Inl (InvalidSlotIdHeapPage slot_id)
      else
        (case priv_getSlotInfo slot_id p of
           Inl e \<Rightarrow> Inl e
         | Inr slot \<Rightarrow>
             if offset slot = INVALID_SLOT_OFFSET then Inl (InvalidSlotIdHeapPage slot_id)
             else if data_capacity record_data < length_rec slot then Inl InvalidSizeData
             else Inr (record_data
                    \<lparr>data_size := length_rec slot,
                     data_bytes := (\<lambda>i. if i < unat (length_rec slot)
                                          then data p (unat (offset slot) + i)
                                          else data_bytes record_data i)\<rparr>)))"

text \<open>
  The loop of \<open>_deleteRecord\<close> over the directory, from index \<open>i\<close> on: every live
  entry whose offset is below the deleted record's gets \<open>length\<close> added to its offset.
\<close>

function adjust_offsets :: "u32 \<Rightarrow> u32 \<Rightarrow> u32 \<Rightarrow> u32 \<Rightarrow> (nat \<Rightarrow> SlotInfo) \<Rightarrow> (nat \<Rightarrow> SlotInfo)" where
  "adjust_offsets cap off len i sd =
     (if i < cap then
        adjust_offsets cap off len (i + 1)
          (if offset (sd (unat i)) \<noteq> INVALID_SLOT_OFFSET \<and> offset (sd (unat i)) < off
           then sd(unat i := (sd (unat i))\<lparr>offset := offset (sd (unat i)) + len\<rparr>)
           else sd)
      else sd)"
  by pat_completeness auto
termination
proof (relation "measure (\<lambda>(cap, off, len, i, sd). unat cap - unat i)")
  show "wf (measure (\<lambda>(cap, off, len, i, sd). unat cap - unat i))"
    by simp
next
  fix cap off len i :: u32 and sd :: "nat \<Rightarrow> SlotInfo"
  assume lt: "i < cap"
  then have "i \<noteq> - 1"
    by (metis word_order.extremum_strict)
  then have "unat (i + 1) = Suc (unat i)"
    by (metis add.commute add_cancel_right_right eq_neg_iff_add_eq_0 unatSuc)
  moreover from lt have "unat i < unat cap"
    by (simp add: word_less_nat_alt)
  ultimately show "((cap, off, len, i + 1,
        if offset (sd (unat i)) \<noteq> INVALID_SLOT_OFFSET \<and> offset (sd (unat i)) < off
        then sd(unat i := (sd (unat i))\<lparr>offset := offset (sd (unat i)) + len\<rparr>) else sd),
      (cap, off, len, i, sd)) \<in> measure (\<lambda>(cap, off, len, i, sd). unat cap - unat i)"
    by simp
qed

text \<open>
  \<open>_deleteRecord\<close>: frees the entry, and closes the gap the record leaves by moving the
  bytes below it up. It does not shrink the directory.
\<close>

definition priv_deleteRecord :: "SlotId \<Rightarrow> HeapPage \<Rightarrow> (error + unit) \<times> HeapPage" where
  "priv_deleteRecord slot_id p =
     (case priv_getSlotInfo slot_id p of
        Inl e \<Rightarrow> (Inl e, p)
      | Inr slot \<Rightarrow>
          if offset slot = INVALID_SLOT_OFFSET \<or> slot_id \<ge> capacity p
          then (Inl (InvalidSlotIdHeapPage slot_id), p)
          else
            (let off = offset slot;
                 len = length_rec slot;
                 p1 = p\<lparr>slot_directory := (slot_directory p)
                         (unat slot_id := \<lparr>offset = INVALID_SLOT_OFFSET, length_rec = 0\<rparr>),
                       size_hdr := size_hdr p - 1\<rparr>
             in if off + len = free_space_end p1
                then (Inr (), p1\<lparr>free_space_end := free_space_end p1 + len\<rparr>)
                else
                  (let size = off - free_space_end p1;
                       p2 = p1\<lparr>data := memmove (data p1)
                                 (unat (free_space_end p1) + unat len)
                                 (unat (free_space_end p1)) (unat size)\<rparr>;
                       p3 = p2\<lparr>slot_directory :=
                                 adjust_offsets (capacity p2) off len 0 (slot_directory p2)\<rparr>
                   in (Inr (), p3\<lparr>free_space_end := free_space_end p3 + len\<rparr>))))"

text \<open>
  The loop of \<open>deleteRecord\<close> that drops the trailing free entries: the local
  \<open>capacity\<close> goes down while it is positive and the entry below it is free.
\<close>

function shrink_capacity :: "(nat \<Rightarrow> SlotInfo) \<Rightarrow> u32 \<Rightarrow> u32" where
  "shrink_capacity sd c =
     (if c > 0 then
        (if offset (sd (unat (c - 1))) \<noteq> INVALID_SLOT_OFFSET then c
         else shrink_capacity sd (c - 1))
      else c)"
  by pat_completeness auto
termination
proof (relation "measure (\<lambda>(sd, c). unat c)")
  show "wf (measure (\<lambda>(sd, c). unat c))"
    by simp
next
  fix sd :: "nat \<Rightarrow> SlotInfo" and c :: u32
  assume "0 < c"
  then have "unat (c - 1) < unat c"
    by (metis diff_less unat_gt_0 unat_minus_one word_gt_0 zero_less_one)
  then show "((sd, c - 1), (sd, c)) \<in> measure (\<lambda>(sd, c). unat c)"
    by simp
qed

definition deleteRecord :: "SlotId \<Rightarrow> HeapPage \<Rightarrow> (error + unit) \<times> HeapPage" where
  "deleteRecord slot_id p =
     (case priv_getSlotInfo slot_id p of
        Inl e \<Rightarrow> (Inl e, p)
      | Inr slot \<Rightarrow>
          if offset slot = INVALID_SLOT_OFFSET \<or> slot_id \<ge> capacity p
          then (Inl (InvalidSlotIdHeapPage slot_id), p)
          else
            (case priv_deleteRecord slot_id p of
               (Inl e, p1) \<Rightarrow> (Inl e, p1)
             | (Inr u, p1) \<Rightarrow>
                 (let capacity' = shrink_capacity (slot_directory p1) (capacity p1)
                  in if capacity' < capacity p1 then
                       (let size = (capacity p1 - capacity') * sizeof_SlotInfo
                        in (Inr (), p1\<lparr>capacity := capacity',
                                       free_space_begin := free_space_begin p1 - size\<rparr>))
                     else (Inr (), p1))))"

definition updateRecord :: "SlotId \<Rightarrow> Data \<Rightarrow> HeapPage \<Rightarrow> (error + unit) \<times> HeapPage" where
  "updateRecord slot_id record_data p =
     (case priv_getSlotInfo slot_id p of
        Inl e \<Rightarrow> (Inl e, p)
      | Inr slot \<Rightarrow>
          if offset slot = INVALID_SLOT_OFFSET \<or> slot_id \<ge> capacity p
          then (Inl (InvalidSlotIdHeapPage slot_id), p)
          else if data_size record_data = 0 then (Inl EmptyDataHeapPage, p)
          else if getFreeSpace p + length_rec slot < data_size record_data
          then (Inl InsufficientSpaceHeapPage, p)
          else
            (case priv_deleteRecord slot_id p of
               (Inl e, p1) \<Rightarrow> (Inl e, p1)
             | (Inr u, p1) \<Rightarrow> priv_insertRecord slot_id record_data p1))"

section \<open>The scanner\<close>

text \<open>
  \<open>HeapPageScanner\<close> holds the page it scans and the cursor \<open>cur_slot\<close>. The page is
  held by value: nothing changes it between the calls the claims are about.
\<close>

record HeapPageScanner =
  page :: HeapPage
  cur_slot :: SlotId

definition HeapPageScanner_new :: "HeapPage \<Rightarrow> HeapPageScanner" where
  "HeapPageScanner_new pg = \<lparr>page = pg, cur_slot = 0\<rparr>"

definition scanner_reset :: "HeapPage \<Rightarrow> HeapPageScanner \<Rightarrow> HeapPageScanner" where
  "scanner_reset pg s = s\<lparr>page := pg, cur_slot := 0\<rparr>"

text \<open>The \<open>while\<close> loop of \<open>HeapPageScanner::getNext\<close>, with its locals as arguments.\<close>

function scanner_loop :: "HeapPageScanner \<Rightarrow> SlotId \<Rightarrow> bool \<Rightarrow> (error + SlotId) \<times> HeapPageScanner" where
  "scanner_loop s to_return found =
     (if \<not> found \<and> cur_slot s < capacity (page s) then
        (case priv_getSlotInfo (cur_slot s) (page s) of
           Inl e \<Rightarrow> (Inl e, s)
         | Inr slot \<Rightarrow>
             if offset slot \<noteq> INVALID_SLOT_OFFSET
             then scanner_loop (s\<lparr>cur_slot := cur_slot s + 1\<rparr>) (cur_slot s) True
             else scanner_loop (s\<lparr>cur_slot := cur_slot s + 1\<rparr>) to_return found)
      else (Inr to_return, s))"
  by pat_completeness auto
termination
proof (relation "measure (\<lambda>(s, t, f). if f then 0 else Suc (unat (capacity (page s)) - unat (cur_slot s)))")
  show "wf (measure (\<lambda>(s, t, f). if f then 0 else Suc (unat (capacity (page s)) - unat (cur_slot s))))"
    by simp
next
  fix s :: HeapPageScanner and to_return :: SlotId and found :: bool and x2 :: SlotInfo
  assume "\<not> found \<and> cur_slot s < capacity (page s)"
  then show "((s\<lparr>cur_slot := cur_slot s + 1\<rparr>, cur_slot s, True), (s, to_return, found))
      \<in> measure (\<lambda>(s, t, f). if f then 0 else Suc (unat (capacity (page s)) - unat (cur_slot s)))"
    by simp
next
  fix s :: HeapPageScanner and to_return :: SlotId and found :: bool and x2 :: SlotInfo
  assume a: "\<not> found \<and> cur_slot s < capacity (page s)"
  then have "cur_slot s \<noteq> - 1"
    by (metis word_order.extremum_strict)
  then have "unat (cur_slot s + 1) = Suc (unat (cur_slot s))"
    by (metis add.commute add_cancel_right_right eq_neg_iff_add_eq_0 unatSuc)
  moreover from a have "unat (cur_slot s) < unat (capacity (page s))"
    by (simp add: word_less_nat_alt)
  ultimately show "((s\<lparr>cur_slot := cur_slot s + 1\<rparr>, to_return, found), (s, to_return, found))
      \<in> measure (\<lambda>(s, t, f). if f then 0 else Suc (unat (capacity (page s)) - unat (cur_slot s)))"
    using a by simp
qed

definition scanner_getNext :: "HeapPageScanner \<Rightarrow> (error + SlotId) \<times> HeapPageScanner" where
  "scanner_getNext s = scanner_loop s INVALID_SLOT_ID False"

section \<open>The invariants of the data model\<close>

text \<open>
  A directory entry is live when its index is below \<open>capacity\<close> and its offset is not
  the sentinel. \<open>slot_off\<close> and \<open>slot_len\<close> read an entry as numbers.
\<close>

definition live :: "HeapPage \<Rightarrow> nat \<Rightarrow> bool" where
  "live p i \<longleftrightarrow> i < unat (capacity p) \<and> offset (slot_directory p i) \<noteq> INVALID_SLOT_OFFSET"

definition live_slots :: "HeapPage \<Rightarrow> nat set" where
  "live_slots p = {i. live p i}"

definition slot_off :: "HeapPage \<Rightarrow> nat \<Rightarrow> nat" where
  "slot_off p i = unat (offset (slot_directory p i))"

definition slot_len :: "HeapPage \<Rightarrow> nat \<Rightarrow> nat" where
  "slot_len p i = unat (length_rec (slot_directory p i))"

text \<open>
  The invariant the proofs carry through every operation, in numbers: the layout of the
  header, the count of live entries, every live record inside the record region and not
  empty, no two live records overlapping, and the lengths of the live records adding up
  to the size of the record region.
\<close>

definition core_inv :: "HeapPage \<Rightarrow> bool" where
  "core_inv p \<longleftrightarrow>
     unat (free_space_begin p) = 24 + 8 * unat (capacity p) \<and>
     unat (free_space_begin p) \<le> unat (free_space_end p) \<and>
     unat (free_space_end p) \<le> 4096 \<and>
     unat (size_hdr p) = card (live_slots p) \<and>
     (\<forall>i. live p i \<longrightarrow>
        unat (free_space_end p) \<le> slot_off p i \<and> slot_off p i + slot_len p i \<le> 4096 \<and>
        1 \<le> slot_len p i) \<and>
     (\<forall>i j. live p i \<and> live p j \<and> i \<noteq> j \<longrightarrow>
        slot_off p i + slot_len p i \<le> slot_off p j \<or> slot_off p j + slot_len p j \<le> slot_off p i) \<and>
     (\<Sum>i\<in>live_slots p. slot_len p i) = 4096 - unat (free_space_end p)"

text \<open>
  Invariant 6: the last entry of a directory that is not empty is live. \<open>full_inv\<close>
  is the invariant of the reachable pages.
\<close>

definition trailing_live :: "HeapPage \<Rightarrow> bool" where
  "trailing_live p \<longleftrightarrow> (0 < capacity p \<longrightarrow> live p (unat (capacity p) - 1))"

definition full_inv :: "HeapPage \<Rightarrow> bool" where
  "full_inv p \<longleftrightarrow> core_inv p \<and> trailing_live p"

section \<open>The invariants as the specification states them\<close>

text \<open>The bytes of the record of entry \<open>i\<close>: the range \<open>[offset, offset + length)\<close>.\<close>

definition rec_range :: "HeapPage \<Rightarrow> nat \<Rightarrow> nat set" where
  "rec_range p i = {slot_off p i ..< slot_off p i + slot_len p i}"

text \<open>Invariant 1: \<open>sizeof(Header) \<le> free_begin \<le> free_end \<le> PAGE_SIZE\<close>.\<close>

definition inv_bounds :: "HeapPage \<Rightarrow> bool" where
  "inv_bounds p \<longleftrightarrow>
     sizeof_HeapPageHeader \<le> free_space_begin p \<and> free_space_begin p \<le> free_space_end p \<and>
     free_space_end p \<le> PAGE_SIZE"

text \<open>Invariant 2: \<open>free_begin = sizeof(Header) + capacity * sizeof(SlotInfo)\<close>, in numbers.\<close>

definition inv_directory :: "HeapPage \<Rightarrow> bool" where
  "inv_directory p \<longleftrightarrow>
     unat (free_space_begin p) =
       unat sizeof_HeapPageHeader + unat (capacity p) * unat sizeof_SlotInfo"

text \<open>Invariant 3: \<open>size\<close> counts the live entries, and \<open>size \<le> capacity\<close>.\<close>

definition inv_size :: "HeapPage \<Rightarrow> bool" where
  "inv_size p \<longleftrightarrow> unat (size_hdr p) = card (live_slots p) \<and> size_hdr p \<le> capacity p"

text \<open>
  Invariants 4 and 5: the ranges of the live records are pairwise disjoint, and together
  they are the record region \<open>[free_end, PAGE_SIZE)\<close>.
\<close>

definition inv_tiling :: "HeapPage \<Rightarrow> bool" where
  "inv_tiling p \<longleftrightarrow>
     (\<forall>i\<in>live_slots p. \<forall>j\<in>live_slots p. i \<noteq> j \<longrightarrow> rec_range p i \<inter> rec_range p j = {}) \<and>
     (\<Union>i\<in>live_slots p. rec_range p i) = {unat (free_space_end p) ..< unat PAGE_SIZE}"

text \<open>
  Invariant 7: no live entry has length 0. Invariant 6 is \<open>trailing_live\<close>. The
  numbers are those of section 3 of the specification.
\<close>

definition inv_nonempty :: "HeapPage \<Rightarrow> bool" where
  "inv_nonempty p \<longleftrightarrow> (\<forall>i\<in>live_slots p. length_rec (slot_directory p i) \<noteq> 0)"

definition page_inv :: "HeapPage \<Rightarrow> bool" where
  "page_inv p \<longleftrightarrow>
     inv_bounds p \<and> inv_directory p \<and> inv_size p \<and> inv_tiling p \<and> trailing_live p \<and>
     inv_nonempty p"

text \<open>
  The pages a caller can reach: \<open>initializeHeader\<close> on a buffer of any content, then
  any sequence of successful mutating operations. \<open>getRecord\<close> and the scanner change
  nothing, so they need no rule.
\<close>

inductive reachable :: "HeapPage \<Rightarrow> bool" where
  reach_init: "reachable (initializeHeader p)"
| reach_insert: "reachable p \<Longrightarrow> insertRecord d p = (Inr slot_id, p') \<Longrightarrow> reachable p'"
| reach_delete: "reachable p \<Longrightarrow> deleteRecord slot_id p = (Inr (), p') \<Longrightarrow> reachable p'"
| reach_update: "reachable p \<Longrightarrow> updateRecord slot_id d p = (Inr (), p') \<Longrightarrow> reachable p'"
| reach_setPrev: "reachable p \<Longrightarrow> reachable (setPrev page_num p)"
| reach_setNext: "reachable p \<Longrightarrow> reachable (setNext page_num p)"

section \<open>The scanner, as the specification states it\<close>

text \<open>
  The first slot id at or after the cursor whose entry is live, following the words of the
  specification; and the scanner after \<open>n\<close> calls of \<open>getNext\<close>.
\<close>

definition next_live :: "HeapPage \<Rightarrow> nat \<Rightarrow> nat option" where
  "next_live p cur = find (live p) [cur..<unat (capacity p)]"

primrec scanner_calls :: "nat \<Rightarrow> HeapPageScanner \<Rightarrow> HeapPageScanner" where
  "scanner_calls 0 s = s"
| "scanner_calls (Suc n) s = snd (scanner_getNext (scanner_calls n s))"

section \<open>Example pages\<close>

text \<open>
  The pages of the specification's scenarios, on a buffer that is all zero before
  \<open>initializeHeader\<close>: three inserts of 10, 15 and 20 bytes (\<open>page_a\<close>, \<open>page_b\<close>,
  \<open>page_c\<close>), then the middle record deleted (\<open>page_d\<close>) and its slot used again
  (\<open>page_e\<close>); from \<open>page_c\<close> also the first record deleted (\<open>page_f\<close>), then the
  second (\<open>page_g\<close>); and the first record of \<open>page_c\<close> updated to 12 bytes
  (\<open>page_u\<close>). \<open>fill_record\<close> is the test fixture's \<open>setRecData\<close>.
\<close>

definition raw_page :: HeapPage where
  "raw_page = \<lparr>prev_page = 0, next_page = 0, free_space_begin = 0, free_space_end = 0,
     size_hdr = 0, capacity = 0,
     slot_directory = (\<lambda>_. \<lparr>offset = 0, length_rec = 0\<rparr>), data = (\<lambda>_. 0)\<rparr>"

definition fill_record :: "u32 \<Rightarrow> byte \<Rightarrow> Data" where
  "fill_record n b = \<lparr>data_size = n, data_capacity = n, data_bytes = (\<lambda>_. b)\<rparr>"

definition page_a :: HeapPage where
  "page_a = (initializeHeader raw_page)
     \<lparr>free_space_begin := 32, free_space_end := 4086, size_hdr := 1, capacity := 1,
      slot_directory := (slot_directory raw_page)(0 := \<lparr>offset = 4086, length_rec = 10\<rparr>),
      data := memcpy (data raw_page) 4086 (\<lambda>_. 1) 10\<rparr>"

definition page_b :: HeapPage where
  "page_b = page_a
     \<lparr>free_space_begin := 40, free_space_end := 4071, size_hdr := 2, capacity := 2,
      slot_directory := (slot_directory page_a)(1 := \<lparr>offset = 4071, length_rec = 15\<rparr>),
      data := memcpy (data page_a) 4071 (\<lambda>_. 2) 15\<rparr>"

definition page_c :: HeapPage where
  "page_c = page_b
     \<lparr>free_space_begin := 48, free_space_end := 4051, size_hdr := 3, capacity := 3,
      slot_directory := (slot_directory page_b)(2 := \<lparr>offset = 4051, length_rec = 20\<rparr>),
      data := memcpy (data page_b) 4051 (\<lambda>_. 3) 20\<rparr>"

definition page_d :: HeapPage where
  "page_d = page_c
     \<lparr>free_space_end := 4066, size_hdr := 2,
      slot_directory := (slot_directory page_c)
        (1 := \<lparr>offset = 0xFFFFFFFF, length_rec = 0\<rparr>, 2 := \<lparr>offset = 4066, length_rec = 20\<rparr>),
      data := memmove (data page_c) 4066 4051 20\<rparr>"

definition page_e :: HeapPage where
  "page_e = page_d
     \<lparr>free_space_end := 4059, size_hdr := 3,
      slot_directory := (slot_directory page_d)(1 := \<lparr>offset = 4059, length_rec = 7\<rparr>),
      data := memcpy (data page_d) 4059 (\<lambda>_. 4) 7\<rparr>"

definition page_f :: HeapPage where
  "page_f = page_c
     \<lparr>free_space_end := 4061, size_hdr := 2,
      slot_directory := (slot_directory page_c)
        (0 := \<lparr>offset = 0xFFFFFFFF, length_rec = 0\<rparr>, 1 := \<lparr>offset = 4081, length_rec = 15\<rparr>,
         2 := \<lparr>offset = 4061, length_rec = 20\<rparr>),
      data := memmove (data page_c) 4061 4051 35\<rparr>"

definition page_g :: HeapPage where
  "page_g = page_f
     \<lparr>free_space_end := 4076, size_hdr := 1,
      slot_directory := (slot_directory page_f)
        (1 := \<lparr>offset = 0xFFFFFFFF, length_rec = 0\<rparr>, 2 := \<lparr>offset = 4076, length_rec = 20\<rparr>),
      data := memmove (data page_f) 4076 4061 20\<rparr>"

definition page_u :: HeapPage where
  "page_u = page_f
     \<lparr>free_space_end := 4049, size_hdr := 3,
      slot_directory := (slot_directory page_f)(0 := \<lparr>offset = 4049, length_rec = 12\<rparr>),
      data := memcpy (data page_f) 4049 (\<lambda>_. 9) 12\<rparr>"

section \<open>Word arithmetic and the loops\<close>

lemmas const_defs = PAGE_SIZE_def INVALID_PAGE_NUM_def INVALID_SLOT_OFFSET_def INVALID_SLOT_ID_def
  sizeof_HeapPageHeader_def sizeof_SlotInfo_def

declare find_free_slot.simps [simp del] adjust_offsets.simps [simp del]
  shrink_capacity.simps [simp del] scanner_loop.simps [simp del]

lemma u32_add: "unat a + unat b < 4294967296 \<Longrightarrow> unat (a + b :: u32) = unat a + unat b"
  by (simp add: unat_add_lem [THEN iffD1])

lemma u32_sub: "unat b \<le> unat a \<Longrightarrow> unat (a - b :: u32) = unat a - unat b"
  by (simp add: unat_sub word_le_nat_alt)

lemma u32_succ: "(i :: u32) < c \<Longrightarrow> unat (i + 1) = Suc (unat i)"
proof -
  assume lt: "i < c"
  then have "unat i < unat c" by (simp add: word_less_nat_alt)
  moreover have "unat c < 4294967296" using unsigned_less [of c, where ?'a = nat] by simp
  ultimately have "unat i + unat (1 :: u32) < 4294967296" by simp
  then show ?thesis using u32_add [of i 1] by simp
qed

lemma u32_pred: "(0 :: u32) < c \<Longrightarrow> unat (c - 1) = unat c - 1"
  by (simp add: unat_minus_one word_gt_0)

lemma u32_one_le: "(1 :: u32) \<le> x \<longleftrightarrow> x \<noteq> 0"
proof -
  have "(1 :: u32) \<le> x \<longleftrightarrow> 1 \<le> unat x" by (simp add: word_le_nat_alt)
  also have "\<dots> \<longleftrightarrow> x \<noteq> 0" using unat_gt_0 [of x] by auto
  finally show ?thesis .
qed

lemma find_free_slot_Inr: "\<exists>r. find_free_slot p i = Inr r"
proof (induction p i rule: find_free_slot.induct)
  case (1 p i)
  show ?case
  proof (cases "i < capacity p")
    case False
    then show ?thesis by (simp add: find_free_slot.simps [of p i])
  next
    case True
    then have g: "priv_getSlotInfo i p = Inr (slot_directory p (unat i))"
      by (simp add: priv_getSlotInfo_def)
    show ?thesis
    proof (cases "offset (slot_directory p (unat i)) = INVALID_SLOT_OFFSET")
      case True
      with \<open>i < capacity p\<close> g show ?thesis by (simp add: find_free_slot.simps [of p i])
    next
      case False
      with \<open>i < capacity p\<close> g "1.IH" [of "slot_directory p (unat i)"] show ?thesis
        by (simp add: find_free_slot.simps [of p i])
    qed
  qed
qed

text \<open>What the scan returns: the first free index at or after i, when it returns an index.\<close>

lemma find_free_slot_found:
  "find_free_slot p i = Inr r \<Longrightarrow> r \<noteq> INVALID_SLOT_OFFSET \<Longrightarrow>
     i \<le> r \<and> r < capacity p \<and> offset (slot_directory p (unat r)) = INVALID_SLOT_OFFSET \<and>
     (\<forall>j. unat i \<le> j \<and> j < unat r \<longrightarrow> offset (slot_directory p j) \<noteq> INVALID_SLOT_OFFSET)"
proof (induction p i rule: find_free_slot.induct)
  case (1 p i)
  show ?case
  proof (cases "i < capacity p")
    case False
    with "1.prems" show ?thesis by (simp add: find_free_slot.simps [of p i])
  next
    case True
    then have g: "priv_getSlotInfo i p = Inr (slot_directory p (unat i))"
      by (simp add: priv_getSlotInfo_def)
    show ?thesis
    proof (cases "offset (slot_directory p (unat i)) = INVALID_SLOT_OFFSET")
      case True
      with \<open>i < capacity p\<close> g "1.prems" have "r = i"
        by (simp add: find_free_slot.simps [of p i])
      with True \<open>i < capacity p\<close> show ?thesis by auto
    next
      case False
      with \<open>i < capacity p\<close> g "1.prems" have rec: "find_free_slot p (i + 1) = Inr r"
        by (simp add: find_free_slot.simps [of p i])
      from "1.IH" [OF \<open>i < capacity p\<close> g False rec "1.prems"(2)]
      have ih: "i + 1 \<le> r" "r < capacity p"
        "offset (slot_directory p (unat r)) = INVALID_SLOT_OFFSET"
        "\<forall>j. unat (i + 1) \<le> j \<and> j < unat r \<longrightarrow> offset (slot_directory p j) \<noteq> INVALID_SLOT_OFFSET"
        by simp_all
      have s: "unat (i + 1) = Suc (unat i)" by (rule u32_succ [OF \<open>i < capacity p\<close>])
      from ih(1) s have "Suc (unat i) \<le> unat r" by (simp add: word_le_nat_alt)
      then have "i \<le> r" by (simp add: word_le_nat_alt)
      moreover have "\<forall>j. unat i \<le> j \<and> j < unat r \<longrightarrow> offset (slot_directory p j) \<noteq> INVALID_SLOT_OFFSET"
      proof (intro allI impI)
        fix j assume j: "unat i \<le> j \<and> j < unat r"
        show "offset (slot_directory p j) \<noteq> INVALID_SLOT_OFFSET"
        proof (cases "j = unat i")
          case True with False show ?thesis by simp
        next
          case False
          with j s have "unat (i + 1) \<le> j \<and> j < unat r" by auto
          with ih(4) show ?thesis by blast
        qed
      qed
      ultimately show ?thesis using ih by simp
    qed
  qed
qed

lemma find_free_slot_none:
  "find_free_slot p i = Inr INVALID_SLOT_OFFSET \<Longrightarrow>
     (\<forall>j. unat i \<le> j \<and> j < unat (capacity p) \<longrightarrow> offset (slot_directory p j) \<noteq> INVALID_SLOT_OFFSET)"
proof (induction p i rule: find_free_slot.induct)
  case (1 p i)
  show ?case
  proof (cases "i < capacity p")
    case False
    then have "unat (capacity p) \<le> unat i" by (simp add: word_less_nat_alt)
    then show ?thesis by auto
  next
    case True
    then have g: "priv_getSlotInfo i p = Inr (slot_directory p (unat i))"
      by (simp add: priv_getSlotInfo_def)
    have ne: "i \<noteq> INVALID_SLOT_OFFSET"
    proof
      assume "i = INVALID_SLOT_OFFSET"
      then have "i = - 1" by (simp add: INVALID_SLOT_OFFSET_def)
      with True show False by (metis word_order.extremum_strict)
    qed
    show ?thesis
    proof (cases "offset (slot_directory p (unat i)) = INVALID_SLOT_OFFSET")
      case True
      with \<open>i < capacity p\<close> g "1.prems" ne show ?thesis
        by (simp add: find_free_slot.simps [of p i])
    next
      case False
      with \<open>i < capacity p\<close> g "1.prems" have rec: "find_free_slot p (i + 1) = Inr INVALID_SLOT_OFFSET"
        by (simp add: find_free_slot.simps [of p i])
      have s: "unat (i + 1) = Suc (unat i)" by (rule u32_succ [OF \<open>i < capacity p\<close>])
      from "1.IH" [OF \<open>i < capacity p\<close> g False rec] s
      have ih: "\<forall>j. Suc (unat i) \<le> j \<and> j < unat (capacity p) \<longrightarrow> offset (slot_directory p j) \<noteq> INVALID_SLOT_OFFSET"
        by simp
      show ?thesis
      proof (intro allI impI)
        fix j assume j: "unat i \<le> j \<and> j < unat (capacity p)"
        show "offset (slot_directory p j) \<noteq> INVALID_SLOT_OFFSET"
        proof (cases "j = unat i")
          case True with False show ?thesis by simp
        next
          case False
          with j have "Suc (unat i) \<le> j \<and> j < unat (capacity p)" by auto
          with ih show ?thesis by blast
        qed
      qed
    qed
  qed
qed

lemma adjust_offsets_at:
  "adjust_offsets cap off len i sd j =
     (if unat i \<le> j \<and> j < unat cap \<and> offset (sd j) \<noteq> INVALID_SLOT_OFFSET \<and> offset (sd j) < off
      then (sd j)\<lparr>offset := offset (sd j) + len\<rparr> else sd j)"
proof (induction cap off len i sd rule: adjust_offsets.induct)
  case (1 cap off len i sd)
  show ?case
  proof (cases "i < cap")
    case False
    then have "unat cap \<le> unat i" by (simp add: word_less_nat_alt)
    then show ?thesis using False by (auto simp: adjust_offsets.simps [of cap off len i sd])
  next
    case True
    have s: "unat (i + 1) = Suc (unat i)" by (rule u32_succ [OF True])
    from True have lt: "unat i < unat cap" by (simp add: word_less_nat_alt)
    show ?thesis
      using "1.IH" [OF True] True s lt
      by (simp add: adjust_offsets.simps [of cap off len i sd])
  qed
qed

lemma shrink_capacity_spec:
  "shrink_capacity sd c = c' \<Longrightarrow>
     c' \<le> c \<and> (0 < c' \<longrightarrow> offset (sd (unat c' - 1)) \<noteq> INVALID_SLOT_OFFSET) \<and>
     (\<forall>j. unat c' \<le> j \<and> j < unat c \<longrightarrow> offset (sd j) = INVALID_SLOT_OFFSET)"
proof (induction sd c rule: shrink_capacity.induct)
  case (1 sd c)
  show ?case
  proof (cases "0 < c")
    case False
    with "1.prems" show ?thesis by (auto simp: shrink_capacity.simps [of sd c])
  next
    case True
    have pr: "unat (c - 1) = unat c - 1" by (rule u32_pred [OF True])
    from True have pos: "0 < unat c" by (simp add: unat_gt_0 word_gt_0)
    show ?thesis
    proof (cases "offset (sd (unat (c - 1))) \<noteq> INVALID_SLOT_OFFSET")
      case True
      with \<open>0 < c\<close> "1.prems" pr show ?thesis
        by (auto simp: shrink_capacity.simps [of sd c])
    next
      case False
      with \<open>0 < c\<close> "1.prems" have rec: "shrink_capacity sd (c - 1) = c'"
        by (simp add: shrink_capacity.simps [of sd c])
      from "1.IH" [OF \<open>0 < c\<close> _ rec] False
      have ih: "c' \<le> c - 1" "0 < c' \<longrightarrow> offset (sd (unat c' - 1)) \<noteq> INVALID_SLOT_OFFSET"
        "\<forall>j. unat c' \<le> j \<and> j < unat (c - 1) \<longrightarrow> offset (sd j) = INVALID_SLOT_OFFSET"
        by simp_all
      from ih(1) pr pos have "c' \<le> c" by (simp add: word_le_nat_alt)
      moreover have "\<forall>j. unat c' \<le> j \<and> j < unat c \<longrightarrow> offset (sd j) = INVALID_SLOT_OFFSET"
      proof (intro allI impI)
        fix j assume j: "unat c' \<le> j \<and> j < unat c"
        show "offset (sd j) = INVALID_SLOT_OFFSET"
        proof (cases "j = unat c - 1")
          case True with False pr show ?thesis by simp
        next
          case False
          with j pr have "unat c' \<le> j \<and> j < unat (c - 1)" by auto
          with ih(3) show ?thesis by blast
        qed
      qed
      ultimately show ?thesis using ih(2) by simp
    qed
  qed
qed

section \<open>The helpers keep the invariant\<close>

lemma live_slots_bound: "live_slots p \<subseteq> {..<unat (capacity p)}"
  by (auto simp: live_slots_def live_def)

lemma finite_live_slots: "finite (live_slots p)"
  by (rule finite_subset [OF live_slots_bound]) simp

lemma card_live_slots_le: "card (live_slots p) \<le> unat (capacity p)"
  using card_mono [OF _ live_slots_bound [of p]] by simp

lemma core_inv_capacity_le: "core_inv p \<Longrightarrow> unat (capacity p) \<le> 509"
  by (simp add: core_inv_def)

lemma priv_insertRecord_eq:
  "slot_id < capacity p \<Longrightarrow>
     priv_insertRecord slot_id d p =
       (Inr (),
        p\<lparr>free_space_end := free_space_end p - data_size d,
          data := memcpy (data p) (unat (free_space_end p - data_size d)) (data_bytes d)
                    (unat (data_size d)),
          slot_directory := (slot_directory p)
            (unat slot_id := \<lparr>offset = free_space_end p - data_size d, length_rec = data_size d\<rparr>),
          size_hdr := size_hdr p + 1\<rparr>)"
  by (simp add: priv_insertRecord_def priv_getSlotInfo_def Let_def not_le [symmetric])

lemma core_inv_insert:
  assumes inv: "core_inv p"
    and sid: "slot_id < capacity p"
    and free: "\<not> live p (unat slot_id)"
    and len: "data_size d \<noteq> 0"
    and fits: "unat (free_space_begin p) + unat (data_size d) \<le> unat (free_space_end p)"
  shows "core_inv (snd (priv_insertRecord slot_id d p))"
proof -
  define q where "q = snd (priv_insertRecord slot_id d p)"
  define s where "s = unat slot_id"
  define L where "L = unat (data_size d)"
  have q: "q = p\<lparr>free_space_end := free_space_end p - data_size d,
          data := memcpy (data p) (unat (free_space_end p - data_size d)) (data_bytes d)
                    (unat (data_size d)),
          slot_directory := (slot_directory p)
            (unat slot_id := \<lparr>offset = free_space_end p - data_size d, length_rec = data_size d\<rparr>),
          size_hdr := size_hdr p + 1\<rparr>"
    by (simp add: q_def priv_insertRecord_eq [OF sid])
  have Lpos: "1 \<le> L" using len by (simp add: L_def unat_gt_0 Suc_le_eq)
  have s_lt: "s < unat (capacity p)" using sid by (simp add: s_def word_less_nat_alt)
  from inv have fb: "unat (free_space_begin p) = 24 + 8 * unat (capacity p)"
    and fe_le: "unat (free_space_end p) \<le> 4096"
    and sz: "unat (size_hdr p) = card (live_slots p)"
    and rng: "\<And>i. live p i \<Longrightarrow> unat (free_space_end p) \<le> slot_off p i"
      "\<And>i. live p i \<Longrightarrow> slot_off p i + slot_len p i \<le> 4096"
      "\<And>i. live p i \<Longrightarrow> 1 \<le> slot_len p i"
    and dis: "\<And>i j. live p i \<Longrightarrow> live p j \<Longrightarrow> i \<noteq> j \<Longrightarrow>
           slot_off p i + slot_len p i \<le> slot_off p j \<or> slot_off p j + slot_len p j \<le> slot_off p i"
    and total: "(\<Sum>i\<in>live_slots p. slot_len p i) = 4096 - unat (free_space_end p)"
    by (simp_all add: core_inv_def)
  have fe: "unat (free_space_end q) = unat (free_space_end p) - L"
    using fits by (simp add: q L_def u32_sub)
  have cap: "capacity q = capacity p" and fbq: "free_space_begin q = free_space_begin p"
    by (simp_all add: q)
  have off_s: "slot_off q s = unat (free_space_end q)" and len_s: "slot_len q s = L"
    by (simp_all add: q slot_off_def slot_len_def s_def L_def)
  have other: "\<And>i. i \<noteq> s \<Longrightarrow> slot_directory q i = slot_directory p i"
    by (simp add: q s_def)
  have off_o: "\<And>i. i \<noteq> s \<Longrightarrow> slot_off q i = slot_off p i"
    and len_o: "\<And>i. i \<noteq> s \<Longrightarrow> slot_len q i = slot_len p i"
    by (simp_all add: slot_off_def slot_len_def other)
  have "unat (free_space_end q) \<le> 4096" using fe fe_le by simp
  then have "offset (slot_directory q s) \<noteq> INVALID_SLOT_OFFSET"
    using off_s by (auto simp: slot_off_def INVALID_SLOT_OFFSET_def)
  then have live_s: "live q s" using s_lt by (simp add: live_def cap)
  have live_o: "\<And>i. i \<noteq> s \<Longrightarrow> live q i \<longleftrightarrow> live p i"
    by (simp add: live_def cap other)
  have ls: "live_slots q = insert s (live_slots p)"
  proof (rule set_eqI)
    fix x show "x \<in> live_slots q \<longleftrightarrow> x \<in> insert s (live_slots p)"
      using live_s live_o [of x] by (cases "x = s") (simp_all add: live_slots_def)
  qed
  have notin: "s \<notin> live_slots p" using free by (simp add: live_slots_def s_def)
  have card: "card (live_slots q) = Suc (card (live_slots p))"
    using notin finite_live_slots [of p] by (simp add: ls)
  have "card (live_slots p) \<le> 509"
    using card_live_slots_le [of p] core_inv_capacity_le [OF inv] by simp
  then have szq: "unat (size_hdr q) = card (live_slots q)"
    using sz card u32_add [of "size_hdr p" 1] by (simp add: q)
  have rngq: "\<forall>i. live q i \<longrightarrow> unat (free_space_end q) \<le> slot_off q i \<and>
           slot_off q i + slot_len q i \<le> 4096 \<and> 1 \<le> slot_len q i"
  proof (intro allI impI)
    fix i assume li: "live q i"
    show "unat (free_space_end q) \<le> slot_off q i \<and>
           slot_off q i + slot_len q i \<le> 4096 \<and> 1 \<le> slot_len q i"
    proof (cases "i = s")
      case True
      then show ?thesis using off_s len_s fe fits fe_le Lpos by (simp add: L_def)
    next
      case False
      with li have "live p i" by (simp add: live_o)
      from rng(1) [OF this] rng(2) [OF this] rng(3) [OF this] False fe
      show ?thesis by (simp add: off_o len_o)
    qed
  qed
  have disq: "\<forall>i j. live q i \<and> live q j \<and> i \<noteq> j \<longrightarrow>
        slot_off q i + slot_len q i \<le> slot_off q j \<or> slot_off q j + slot_len q j \<le> slot_off q i"
  proof (intro allI impI, elim conjE)
    fix i j assume li: "live q i" and lj: "live q j" and ne: "i \<noteq> j"
    have new_old: "\<And>k. live q k \<Longrightarrow> k \<noteq> s \<Longrightarrow> slot_off q s + slot_len q s \<le> slot_off q k"
    proof -
      fix k assume "live q k" "k \<noteq> s"
      then have "live p k" using live_o [of k] by simp
      from rng(1) [OF this] \<open>k \<noteq> s\<close> show "slot_off q s + slot_len q s \<le> slot_off q k"
        using off_s len_s fe fits by (simp add: off_o L_def)
    qed
    show "slot_off q i + slot_len q i \<le> slot_off q j \<or> slot_off q j + slot_len q j \<le> slot_off q i"
    proof (cases "i = s")
      case True
      with ne have "j \<noteq> s" by simp
      from new_old [OF lj this] True show ?thesis by simp
    next
      case False
      note i_ne = this
      show ?thesis
      proof (cases "j = s")
        case True
        from new_old [OF li i_ne] True show ?thesis by simp
      next
        case False
        have "live p i" "live p j" using li lj live_o [of i] live_o [of j] i_ne False by simp_all
        from dis [OF this ne] i_ne False show ?thesis by (simp add: off_o len_o)
      qed
    qed
  qed
  have "(\<Sum>i\<in>live_slots q. slot_len q i) = slot_len q s + (\<Sum>i\<in>live_slots p. slot_len q i)"
    using notin finite_live_slots [of p] by (simp add: ls)
  also have "(\<Sum>i\<in>live_slots p. slot_len q i) = (\<Sum>i\<in>live_slots p. slot_len p i)"
  proof (rule sum.cong [OF refl])
    fix x assume "x \<in> live_slots p"
    with notin have "x \<noteq> s" by blast
    then show "slot_len q x = slot_len p x" by (rule len_o)
  qed
  finally have totq: "(\<Sum>i\<in>live_slots q. slot_len q i) = 4096 - unat (free_space_end q)"
    using total len_s fe fits fe_le by (simp add: L_def)
  have "unat (free_space_begin q) \<le> unat (free_space_end q)"
    using fits fe by (simp add: fbq L_def)
  then have "core_inv q"
    using fb fe fe_le szq rngq disq totq unfolding core_inv_def [of q] cap fbq by simp
  then show ?thesis by (simp add: q_def)
qed


lemma core_inv_live_bounds:
  assumes "core_inv p" "live p i"
  shows "unat (free_space_end p) \<le> slot_off p i" "slot_off p i + slot_len p i \<le> 4096"
    "1 \<le> slot_len p i"
  using assms by (simp_all add: core_inv_def)

lemma core_inv_disjoint:
  assumes "core_inv p" "live p i" "live p j" "i \<noteq> j"
  shows "slot_off p i + slot_len p i \<le> slot_off p j \<or> slot_off p j + slot_len p j \<le> slot_off p i"
  using assms unfolding core_inv_def by blast

text \<open>On a page that satisfies the invariant the early return of _deleteRecord is dead.\<close>

lemma early_return_dead:
  assumes inv: "core_inv p" and lv: "live p i"
  shows "offset (slot_directory p i) + length_rec (slot_directory p i) \<noteq> free_space_end p"
proof -
  from core_inv_live_bounds [OF inv lv]
  have b: "unat (free_space_end p) \<le> unat (offset (slot_directory p i))"
    "unat (offset (slot_directory p i)) + unat (length_rec (slot_directory p i)) \<le> 4096"
    "1 \<le> unat (length_rec (slot_directory p i))"
    by (simp_all add: slot_off_def slot_len_def)
  then have "unat (offset (slot_directory p i) + length_rec (slot_directory p i)) =
      unat (offset (slot_directory p i)) + unat (length_rec (slot_directory p i))"
    by (simp add: u32_add)
  with b have "unat (offset (slot_directory p i) + length_rec (slot_directory p i)) \<noteq> unat (free_space_end p)"
    by simp
  then show ?thesis by auto
qed

lemma priv_deleteRecord_eq:
  assumes inv: "core_inv p" and sid: "slot_id < capacity p" and lv: "live p (unat slot_id)"
  shows "priv_deleteRecord slot_id p =
    (Inr (),
     p\<lparr>slot_directory :=
         adjust_offsets (capacity p) (offset (slot_directory p (unat slot_id)))
           (length_rec (slot_directory p (unat slot_id))) 0
           ((slot_directory p)(unat slot_id := \<lparr>offset = INVALID_SLOT_OFFSET, length_rec = 0\<rparr>)),
       size_hdr := size_hdr p - 1,
       data := memmove (data p)
           (unat (free_space_end p) + unat (length_rec (slot_directory p (unat slot_id))))
           (unat (free_space_end p))
           (unat (offset (slot_directory p (unat slot_id)) - free_space_end p)),
       free_space_end := free_space_end p + length_rec (slot_directory p (unat slot_id))\<rparr>)"
proof -
  from lv have ne: "offset (slot_directory p (unat slot_id)) \<noteq> INVALID_SLOT_OFFSET"
    by (simp add: live_def)
  from sid have nle: "\<not> capacity p \<le> slot_id" by simp
  show ?thesis
    using ne nle early_return_dead [OF inv lv]
    by (simp add: priv_deleteRecord_def priv_getSlotInfo_def Let_def)
qed

lemma delete_directory_at:
  assumes sid: "slot_id < capacity p"
  shows "adjust_offsets (capacity p) off len 0
           ((slot_directory p)(unat slot_id := \<lparr>offset = INVALID_SLOT_OFFSET, length_rec = 0\<rparr>)) i =
         (if i = unat slot_id then \<lparr>offset = INVALID_SLOT_OFFSET, length_rec = 0\<rparr>
          else if live p i \<and> offset (slot_directory p i) < off
               then (slot_directory p i)\<lparr>offset := offset (slot_directory p i) + len\<rparr>
               else slot_directory p i)"
  by (simp add: adjust_offsets_at live_def)

lemma priv_deleteRecord_effects:
  assumes inv: "core_inv p" and sid: "slot_id < capacity p" and lv: "live p (unat slot_id)"
  defines "q \<equiv> snd (priv_deleteRecord slot_id p)"
  defines "s \<equiv> unat slot_id"
  shows "fst (priv_deleteRecord slot_id p) = Inr ()"
    and "capacity q = capacity p"
    and "free_space_begin q = free_space_begin p"
    and "prev_page q = prev_page p"
    and "next_page q = next_page p"
    and "unat (free_space_end q) = unat (free_space_end p) + slot_len p s"
    and "free_space_end q = free_space_end p + length_rec (slot_directory p s)"
    and "size_hdr q = size_hdr p - 1"
    and "slot_directory q s = \<lparr>offset = INVALID_SLOT_OFFSET, length_rec = 0\<rparr>"
    and "\<And>i. i \<noteq> s \<Longrightarrow> \<not> live p i \<Longrightarrow> slot_directory q i = slot_directory p i"
    and "\<And>i. i \<noteq> s \<Longrightarrow> slot_len q i = slot_len p i"
    and "\<And>i. i \<noteq> s \<Longrightarrow> live p i \<Longrightarrow> slot_off p i < slot_off p s \<Longrightarrow>
           slot_off q i = slot_off p i + slot_len p s \<and> slot_off p i + slot_len p i \<le> slot_off p s"
    and "\<And>i. i \<noteq> s \<Longrightarrow> live p i \<Longrightarrow> \<not> slot_off p i < slot_off p s \<Longrightarrow>
           slot_off q i = slot_off p i \<and> slot_off p s + slot_len p s \<le> slot_off p i"
    and "\<And>i. live q i \<longleftrightarrow> live p i \<and> i \<noteq> s"
    and "data q = memmove (data p) (unat (free_space_end p) + slot_len p s)
           (unat (free_space_end p)) (slot_off p s - unat (free_space_end p))"
proof -
  define off where "off = offset (slot_directory p s)"
  define len where "len = length_rec (slot_directory p s)"
  have lvs: "live p s" using lv by (simp add: s_def)
  have q: "q = p\<lparr>slot_directory :=
         adjust_offsets (capacity p) off len 0
           ((slot_directory p)(unat slot_id := \<lparr>offset = INVALID_SLOT_OFFSET, length_rec = 0\<rparr>)),
       size_hdr := size_hdr p - 1,
       data := memmove (data p) (unat (free_space_end p) + unat len)
           (unat (free_space_end p)) (unat (off - free_space_end p)),
       free_space_end := free_space_end p + len\<rparr>"
    by (simp add: q_def priv_deleteRecord_eq [OF inv sid lv] off_def len_def s_def)
  show "fst (priv_deleteRecord slot_id p) = Inr ()"
    by (simp add: priv_deleteRecord_eq [OF inv sid lv])
  note rng = core_inv_live_bounds [OF inv]
  note dis = core_inv_disjoint [OF inv]
  have so: "slot_off p s = unat off" and sl: "slot_len p s = unat len"
    by (simp_all add: slot_off_def slot_len_def off_def len_def)
  have bs: "unat (free_space_end p) \<le> unat off" "unat off + unat len \<le> 4096" "1 \<le> unat len"
    using rng [OF lvs] by (simp_all add: so sl)
  show cap: "capacity q = capacity p" and "free_space_begin q = free_space_begin p"
    and "prev_page q = prev_page p" and "next_page q = next_page p"
    and "size_hdr q = size_hdr p - 1"
    by (simp_all add: q)
  show "unat (free_space_end q) = unat (free_space_end p) + slot_len p s"
    using bs by (simp add: q u32_add sl)
  show "free_space_end q = free_space_end p + length_rec (slot_directory p s)"
    by (simp add: q len_def)
  have "unat (off - free_space_end p) = unat off - unat (free_space_end p)"
    using bs by (simp add: u32_sub)
  then show "data q = memmove (data p) (unat (free_space_end p) + slot_len p s)
           (unat (free_space_end p)) (slot_off p s - unat (free_space_end p))"
    by (simp add: q so sl)
  have dir: "\<And>i. slot_directory q i =
         (if i = s then \<lparr>offset = INVALID_SLOT_OFFSET, length_rec = 0\<rparr>
          else if live p i \<and> offset (slot_directory p i) < off
               then (slot_directory p i)\<lparr>offset := offset (slot_directory p i) + len\<rparr>
               else slot_directory p i)"
    by (simp add: q delete_directory_at [OF sid] s_def)
  show "slot_directory q s = \<lparr>offset = INVALID_SLOT_OFFSET, length_rec = 0\<rparr>"
    by (simp add: dir)
  show len_o: "\<And>i. i \<noteq> s \<Longrightarrow> slot_len q i = slot_len p i"
    by (simp add: slot_len_def dir)
  show off_dead: "\<And>i. i \<noteq> s \<Longrightarrow> \<not> live p i \<Longrightarrow> slot_directory q i = slot_directory p i"
    by (simp add: dir)
  have off_lo: "\<And>i. i \<noteq> s \<Longrightarrow> live p i \<Longrightarrow> slot_off p i < unat off \<Longrightarrow>
      slot_off q i = slot_off p i + unat len"
  proof -
    fix i assume a: "i \<noteq> s" "live p i" "slot_off p i < unat off"
    then have "offset (slot_directory p i) < off" by (simp add: slot_off_def word_less_nat_alt)
    with a have "slot_off q i = unat (offset (slot_directory p i) + len)"
      by (simp add: slot_off_def dir)
    also have "\<dots> = slot_off p i + unat len"
      using a(3) bs by (simp add: slot_off_def u32_add)
    finally show "slot_off q i = slot_off p i + unat len" .
  qed
  have off_hi: "\<And>i. i \<noteq> s \<Longrightarrow> \<not> slot_off p i < unat off \<Longrightarrow> slot_off q i = slot_off p i"
    by (simp add: slot_off_def dir word_less_nat_alt)
  have low: "\<And>i. i \<noteq> s \<Longrightarrow> live p i \<Longrightarrow> slot_off p i < unat off \<Longrightarrow>
      slot_off p i + slot_len p i \<le> unat off"
  proof -
    fix i assume a: "i \<noteq> s" "live p i" "slot_off p i < unat off"
    from dis [OF a(2) lvs a(1)] rng(3) [OF a(2)] a(3) bs
    show "slot_off p i + slot_len p i \<le> unat off" by (auto simp: so sl)
  qed
  have high: "\<And>i. i \<noteq> s \<Longrightarrow> live p i \<Longrightarrow> \<not> slot_off p i < unat off \<Longrightarrow>
      unat off + unat len \<le> slot_off p i"
  proof -
    fix i assume a: "i \<noteq> s" "live p i" "\<not> slot_off p i < unat off"
    from dis [OF a(2) lvs a(1)] rng(3) [OF a(2)] a(3) bs
    show "unat off + unat len \<le> slot_off p i" by (auto simp: so sl)
  qed
  show "\<And>i. i \<noteq> s \<Longrightarrow> live p i \<Longrightarrow> slot_off p i < slot_off p s \<Longrightarrow>
           slot_off q i = slot_off p i + slot_len p s \<and> slot_off p i + slot_len p i \<le> slot_off p s"
    using off_lo low by (simp add: so sl)
  show "\<And>i. i \<noteq> s \<Longrightarrow> live p i \<Longrightarrow> \<not> slot_off p i < slot_off p s \<Longrightarrow>
           slot_off q i = slot_off p i \<and> slot_off p s + slot_len p s \<le> slot_off p i"
    using off_hi high by (simp add: so sl)
  show "\<And>i. live q i \<longleftrightarrow> live p i \<and> i \<noteq> s"
  proof -
    fix i
    show "live q i \<longleftrightarrow> live p i \<and> i \<noteq> s"
    proof (cases "i = s")
      case True
      then show ?thesis by (simp add: live_def dir)
    next
      case False
      show ?thesis
      proof (cases "live p i")
        case False
        with \<open>i \<noteq> s\<close> show ?thesis by (simp add: live_def cap off_dead)
      next
        case True
        have "slot_off q i \<le> 4096"
        proof (cases "slot_off p i < unat off")
          case True
          from off_lo [OF \<open>i \<noteq> s\<close> \<open>live p i\<close> True] True bs show ?thesis by simp
        next
          case False
          from off_hi [OF \<open>i \<noteq> s\<close> False] rng(2) [OF \<open>live p i\<close>] show ?thesis by simp
        qed
        then have "offset (slot_directory q i) \<noteq> INVALID_SLOT_OFFSET"
          by (auto simp: slot_off_def INVALID_SLOT_OFFSET_def)
        with True \<open>i \<noteq> s\<close> show ?thesis by (simp add: live_def cap)
      qed
    qed
  qed
qed

lemma core_inv_delete:
  assumes inv: "core_inv p" and sid: "slot_id < capacity p" and lv: "live p (unat slot_id)"
  shows "core_inv (snd (priv_deleteRecord slot_id p))"
proof -
  define q where "q = snd (priv_deleteRecord slot_id p)"
  define s where "s = unat slot_id"
  note eff = priv_deleteRecord_effects [OF inv sid lv, folded q_def s_def]
  have lvs: "live p s" using lv by (simp add: s_def)
  from inv have fb: "unat (free_space_begin p) = 24 + 8 * unat (capacity p)"
    and fb_le: "unat (free_space_begin p) \<le> unat (free_space_end p)"
    and fe_le: "unat (free_space_end p) \<le> 4096"
    and sz: "unat (size_hdr p) = card (live_slots p)"
    and total: "(\<Sum>i\<in>live_slots p. slot_len p i) = 4096 - unat (free_space_end p)"
    by (simp_all add: core_inv_def)
  note rng = core_inv_live_bounds [OF inv]
  note dis = core_inv_disjoint [OF inv]
  note bs = rng [OF lvs]
  note cap = eff(2) and fbq = eff(3) and fe = eff(6) and live_q = eff(14) and len_o = eff(11)
  note lo = eff(12) and hi = eff(13)
  have ls: "live_slots q = live_slots p - {s}"
    by (auto simp: live_slots_def live_q)
  have in_ls: "s \<in> live_slots p" using lvs by (simp add: live_slots_def)
  have card: "card (live_slots q) = card (live_slots p) - 1"
    using in_ls finite_live_slots [of p] by (simp add: ls)
  have "0 < card (live_slots p)"
    using in_ls finite_live_slots [of p] by (auto simp: card_gt_0_iff)
  then have szq: "unat (size_hdr q) = card (live_slots q)"
    using sz card u32_sub [of 1 "size_hdr p"] by (simp add: eff(8))
  have rngq: "\<forall>i. live q i \<longrightarrow> unat (free_space_end q) \<le> slot_off q i \<and>
           slot_off q i + slot_len q i \<le> 4096 \<and> 1 \<le> slot_len q i"
  proof (intro allI impI)
    fix i assume "live q i"
    then have li: "live p i" and ne: "i \<noteq> s" by (simp_all add: live_q)
    show "unat (free_space_end q) \<le> slot_off q i \<and>
           slot_off q i + slot_len q i \<le> 4096 \<and> 1 \<le> slot_len q i"
    proof (cases "slot_off p i < slot_off p s")
      case True
      from lo [OF ne li True] rng(1) [OF li] rng(3) [OF li] bs fe
      show ?thesis by (simp add: len_o [OF ne])
    next
      case False
      from hi [OF ne li False] rng(2) [OF li] rng(3) [OF li] bs fe
      show ?thesis by (simp add: len_o [OF ne])
    qed
  qed
  have disq: "\<forall>i j. live q i \<and> live q j \<and> i \<noteq> j \<longrightarrow>
        slot_off q i + slot_len q i \<le> slot_off q j \<or> slot_off q j + slot_len q j \<le> slot_off q i"
  proof (intro allI impI, elim conjE)
    fix i j assume "live q i" "live q j" and ne: "i \<noteq> j"
    then have li: "live p i" and ni: "i \<noteq> s" and lj: "live p j" and nj: "j \<noteq> s"
      by (simp_all add: live_q)
    show "slot_off q i + slot_len q i \<le> slot_off q j \<or> slot_off q j + slot_len q j \<le> slot_off q i"
    proof (cases "slot_off p i < slot_off p s")
      case True
      note ilow = this
      show ?thesis
      proof (cases "slot_off p j < slot_off p s")
        case True
        from lo [OF ni li ilow] lo [OF nj lj True] dis [OF li lj ne]
        show ?thesis by (auto simp: len_o [OF ni] len_o [OF nj])
      next
        case False
        from lo [OF ni li ilow] hi [OF nj lj False]
        show ?thesis by (simp add: len_o [OF ni] len_o [OF nj])
      qed
    next
      case False
      note ihigh = this
      show ?thesis
      proof (cases "slot_off p j < slot_off p s")
        case True
        from hi [OF ni li ihigh] lo [OF nj lj True]
        show ?thesis by (simp add: len_o [OF ni] len_o [OF nj])
      next
        case False
        from hi [OF ni li ihigh] hi [OF nj lj False] dis [OF li lj ne]
        show ?thesis by (simp add: len_o [OF ni] len_o [OF nj])
      qed
    qed
  qed
  have "(\<Sum>i\<in>live_slots q. slot_len q i) = (\<Sum>i\<in>live_slots p - {s}. slot_len p i)"
    unfolding ls by (rule sum.cong [OF refl]) (simp add: len_o)
  also have "\<dots> = (\<Sum>i\<in>live_slots p. slot_len p i) - slot_len p s"
    using in_ls finite_live_slots [of p] by (simp add: sum_diff1_nat)
  finally have totq: "(\<Sum>i\<in>live_slots q. slot_len q i) = 4096 - unat (free_space_end q)"
    using total fe by simp
  have "unat (free_space_begin q) \<le> unat (free_space_end q)" "unat (free_space_end q) \<le> 4096"
    using fb_le fe bs by (simp_all add: fbq)
  then have "core_inv q"
    using fb szq rngq disq totq unfolding core_inv_def [of q] cap fbq by simp
  then show ?thesis by (simp add: q_def)
qed

text \<open>Pages that agree on the header's free_space_end and size, and on the live entries.\<close>

lemma core_inv_cong:
  assumes inv: "core_inv p"
    and fb: "unat (free_space_begin q) = 24 + 8 * unat (capacity q)"
    and fb_le: "unat (free_space_begin q) \<le> unat (free_space_end q)"
    and fe: "free_space_end q = free_space_end p"
    and sz: "size_hdr q = size_hdr p"
    and lv: "\<And>i. live q i \<longleftrightarrow> live p i"
    and sd: "\<And>i. live p i \<Longrightarrow> slot_directory q i = slot_directory p i"
  shows "core_inv q"
proof -
  have ls: "live_slots q = live_slots p" by (simp add: live_slots_def lv)
  have off: "\<And>i. live p i \<Longrightarrow> slot_off q i = slot_off p i"
    and len: "\<And>i. live p i \<Longrightarrow> slot_len q i = slot_len p i"
    by (simp_all add: slot_off_def slot_len_def sd)
  have "(\<Sum>i\<in>live_slots q. slot_len q i) = (\<Sum>i\<in>live_slots p. slot_len p i)"
    unfolding ls by (rule sum.cong [OF refl]) (simp add: len live_slots_def)
  moreover have "\<forall>i. live q i \<longrightarrow> unat (free_space_end q) \<le> slot_off q i \<and>
           slot_off q i + slot_len q i \<le> 4096 \<and> 1 \<le> slot_len q i"
    using core_inv_live_bounds [OF inv] by (simp add: lv fe off len)
  moreover have "\<forall>i j. live q i \<and> live q j \<and> i \<noteq> j \<longrightarrow>
        slot_off q i + slot_len q i \<le> slot_off q j \<or> slot_off q j + slot_len q j \<le> slot_off q i"
  proof (intro allI impI, elim conjE)
    fix i j assume "live q i" "live q j" "i \<noteq> j"
    then have a: "live p i" "live p j" "i \<noteq> j" by (simp_all add: lv)
    from core_inv_disjoint [OF inv a] off [OF a(1)] off [OF a(2)] len [OF a(1)] len [OF a(2)]
    show "slot_off q i + slot_len q i \<le> slot_off q j \<or> slot_off q j + slot_len q j \<le> slot_off q i"
      by simp
  qed
  ultimately show ?thesis
    using inv fb fb_le unfolding core_inv_def [of q] by (simp add: core_inv_def [of p] fe sz ls)
qed

lemma core_inv_grow:
  assumes inv: "core_inv p"
    and room: "unat (free_space_begin p) + 8 \<le> unat (free_space_end p)"
  shows "core_inv (p\<lparr>capacity := capacity p + 1,
            free_space_begin := free_space_begin p + sizeof_SlotInfo,
            slot_directory := (slot_directory p)
              (unat (capacity p) := \<lparr>offset = INVALID_SLOT_OFFSET, length_rec = 0\<rparr>)\<rparr>)"
    (is "core_inv ?q")
proof (rule core_inv_cong [OF inv])
  have c: "unat (capacity p) \<le> 509" by (rule core_inv_capacity_le [OF inv])
  then have c1: "unat (capacity p + 1) = unat (capacity p) + 1"
    by (simp add: u32_add)
  from inv have fb: "unat (free_space_begin p) = 24 + 8 * unat (capacity p)"
    and fe: "unat (free_space_end p) \<le> 4096"
    by (simp_all add: core_inv_def)
  have fb1: "unat (free_space_begin p + sizeof_SlotInfo) = unat (free_space_begin p) + 8"
    using fb c by (simp add: sizeof_SlotInfo_def u32_add)
  show "unat (free_space_begin ?q) = 24 + 8 * unat (capacity ?q)"
    using fb fb1 c1 by simp
  show "unat (free_space_begin ?q) \<le> unat (free_space_end ?q)"
    using fb1 room by simp
  show "free_space_end ?q = free_space_end p" by simp
  show "size_hdr ?q = size_hdr p" by simp
  show "\<And>i. live ?q i \<longleftrightarrow> live p i"
    using c1 by (auto simp: live_def)
  show "\<And>i. live p i \<Longrightarrow> slot_directory ?q i = slot_directory p i"
    by (auto simp: live_def)
qed

lemma core_inv_shrink:
  assumes inv: "core_inv p"
    and le: "c' \<le> capacity p"
    and dead: "\<forall>j. unat c' \<le> j \<and> j < unat (capacity p) \<longrightarrow>
        offset (slot_directory p j) = INVALID_SLOT_OFFSET"
    and fb: "unat fb' = 24 + 8 * unat c'"
  shows "core_inv (p\<lparr>capacity := c', free_space_begin := fb'\<rparr>)" (is "core_inv ?q")
proof (rule core_inv_cong [OF inv])
  from le have le': "unat c' \<le> unat (capacity p)" by (simp add: word_le_nat_alt)
  from inv have fbp: "unat (free_space_begin p) = 24 + 8 * unat (capacity p)"
    and fb_le: "unat (free_space_begin p) \<le> unat (free_space_end p)"
    by (simp_all add: core_inv_def)
  show "unat (free_space_begin ?q) = 24 + 8 * unat (capacity ?q)" using fb by simp
  show "unat (free_space_begin ?q) \<le> unat (free_space_end ?q)"
    using fb fbp fb_le le' by simp
  show "free_space_end ?q = free_space_end p" by simp
  show "size_hdr ?q = size_hdr p" by simp
  show "\<And>i. live ?q i \<longleftrightarrow> live p i"
    using le' dead by (auto simp: live_def) (metis not_le_imp_less)
  show "\<And>i. live p i \<Longrightarrow> slot_directory ?q i = slot_directory p i" by simp
qed

lemma core_inv_raw_free:
  assumes "core_inv p"
  shows "unat (free_space_end p - free_space_begin p) = unat (free_space_end p) - unat (free_space_begin p)"
  using assms by (simp add: core_inv_def u32_sub)

lemma core_inv_size_capacity:
  assumes inv: "core_inv p"
  shows "size_hdr p = capacity p \<longleftrightarrow> (\<forall>i < unat (capacity p). live p i)"
proof -
  from inv have sz: "unat (size_hdr p) = card (live_slots p)" by (simp add: core_inv_def)
  have "size_hdr p = capacity p \<longleftrightarrow> card (live_slots p) = card {..<unat (capacity p)}"
    using sz by (auto simp: word_unat_eq_iff)
  also have "\<dots> \<longleftrightarrow> live_slots p = {..<unat (capacity p)}"
  proof
    assume "card (live_slots p) = card {..<unat (capacity p)}"
    then show "live_slots p = {..<unat (capacity p)}"
      by (intro card_subset_eq [OF _ live_slots_bound]) simp_all
  next
    assume "live_slots p = {..<unat (capacity p)}"
    then show "card (live_slots p) = card {..<unat (capacity p)}" by simp
  qed
  also have "\<dots> \<longleftrightarrow> (\<forall>i < unat (capacity p). live p i)"
    using live_slots_bound [of p] by (auto simp: live_slots_def)
  finally show ?thesis .
qed

lemma core_inv_size_le: "core_inv p \<Longrightarrow> size_hdr p \<le> capacity p"
  using card_live_slots_le [of p] by (simp add: core_inv_def word_le_nat_alt)

text \<open>getFreeSpace in numbers.\<close>

lemma getFreeSpace_nat:
  assumes inv: "core_inv p"
  shows "unat (getFreeSpace p) =
     (if size_hdr p = capacity p
      then unat (free_space_end p) - unat (free_space_begin p) - 8
      else unat (free_space_end p) - unat (free_space_begin p))"
proof -
  note raw = core_inv_raw_free [OF inv]
  have "unat (8 :: u32) = 8" by simp
  then show ?thesis
    using raw u32_sub [of 8 "free_space_end p - free_space_begin p"]
    by (auto simp: getFreeSpace_def Let_def sizeof_SlotInfo_def word_le_nat_alt)
qed


section \<open>The public operations keep the invariant\<close>

lemma find_free_slot_reuse:
  assumes f: "find_free_slot p 0 = Inr r" and ne: "r \<noteq> INVALID_SLOT_OFFSET"
  shows "r < capacity p" "\<not> live p (unat r)" "\<And>j. j < unat r \<Longrightarrow> live p j"
proof -
  note ff = find_free_slot_found [OF f ne]
  from ff show "r < capacity p" by simp
  from ff show "\<not> live p (unat r)" by (simp add: live_def)
  fix j assume j: "j < unat r"
  from ff have "unat r < unat (capacity p)" by (simp add: word_less_nat_alt)
  with j ff show "live p j" by (simp add: live_def)
qed

lemma find_free_slot_full:
  assumes f: "find_free_slot p 0 = Inr INVALID_SLOT_OFFSET"
  shows "\<forall>i < unat (capacity p). live p i"
  using find_free_slot_none [OF f] by (simp add: live_def)

lemma insert_reuse_fits:
  assumes inv: "core_inv p" and fit: "data_size d \<le> getFreeSpace p"
    and r: "r < capacity p" "\<not> live p (unat r)"
  shows "unat (free_space_begin p) + unat (data_size d) \<le> unat (free_space_end p)"
proof -
  from r have "\<not> (\<forall>i < unat (capacity p). live p i)"
    by (auto simp: word_less_nat_alt)
  then have "size_hdr p \<noteq> capacity p" by (simp add: core_inv_size_capacity [OF inv])
  then have "unat (getFreeSpace p) = unat (free_space_end p) - unat (free_space_begin p)"
    by (simp add: getFreeSpace_nat [OF inv])
  moreover from inv have "unat (free_space_begin p) \<le> unat (free_space_end p)"
    by (simp add: core_inv_def)
  moreover from fit have "unat (data_size d) \<le> unat (getFreeSpace p)"
    by (simp add: word_le_nat_alt)
  ultimately show ?thesis by simp
qed

lemma insert_grow_fits:
  assumes inv: "core_inv p" and len: "data_size d \<noteq> 0" and fit: "data_size d \<le> getFreeSpace p"
    and full: "\<forall>i < unat (capacity p). live p i"
  shows "unat (free_space_begin p) + 8 + unat (data_size d) \<le> unat (free_space_end p)"
proof -
  from full have "size_hdr p = capacity p" by (simp add: core_inv_size_capacity [OF inv])
  then have "unat (getFreeSpace p) = unat (free_space_end p) - unat (free_space_begin p) - 8"
    by (simp add: getFreeSpace_nat [OF inv])
  moreover from fit have "unat (data_size d) \<le> unat (getFreeSpace p)"
    by (simp add: word_le_nat_alt)
  moreover from len have "0 < unat (data_size d)" by (simp add: unat_gt_0)
  ultimately show ?thesis by simp
qed

lemma priv_insertRecord_effects:
  assumes sid: "slot_id < capacity p" and fe_le: "unat (free_space_end p) \<le> 4096"
    and fits: "unat (data_size d) \<le> unat (free_space_end p)"
  defines "q \<equiv> snd (priv_insertRecord slot_id d p)"
  defines "s \<equiv> unat slot_id"
  shows "fst (priv_insertRecord slot_id d p) = Inr ()"
    and "capacity q = capacity p"
    and "free_space_begin q = free_space_begin p"
    and "prev_page q = prev_page p"
    and "next_page q = next_page p"
    and "unat (free_space_end q) = unat (free_space_end p) - unat (data_size d)"
    and "free_space_end q = free_space_end p - data_size d"
    and "size_hdr q = size_hdr p + 1"
    and "slot_directory q = (slot_directory p)
           (s := \<lparr>offset = free_space_end q, length_rec = data_size d\<rparr>)"
    and "\<And>i. live q i \<longleftrightarrow> i = s \<or> live p i"
    and "data q = memcpy (data p) (unat (free_space_end q)) (data_bytes d) (unat (data_size d))"
proof -
  note eq = priv_insertRecord_eq [OF sid, of d]
  show "fst (priv_insertRecord slot_id d p) = Inr ()" by (simp add: eq)
  show cap: "capacity q = capacity p" and "free_space_begin q = free_space_begin p"
    and "prev_page q = prev_page p" and "next_page q = next_page p"
    and "size_hdr q = size_hdr p + 1" and "free_space_end q = free_space_end p - data_size d"
    by (simp_all add: q_def eq)
  show fe: "unat (free_space_end q) = unat (free_space_end p) - unat (data_size d)"
    using fits by (simp add: q_def eq u32_sub)
  show dir: "slot_directory q = (slot_directory p)
           (s := \<lparr>offset = free_space_end q, length_rec = data_size d\<rparr>)"
    by (simp add: q_def eq s_def)
  show "data q = memcpy (data p) (unat (free_space_end q)) (data_bytes d) (unat (data_size d))"
    by (simp add: q_def eq)
  have "unat (free_space_end q) \<le> 4096" using fe fe_le by simp
  then have ne: "free_space_end q \<noteq> INVALID_SLOT_OFFSET"
    by (auto simp: INVALID_SLOT_OFFSET_def)
  from sid have "s < unat (capacity p)" by (simp add: s_def word_less_nat_alt)
  with ne show "\<And>i. live q i \<longleftrightarrow> i = s \<or> live p i"
    by (simp add: live_def cap dir)
qed

lemma insertRecord_reuse:
  assumes len: "data_size d \<noteq> 0" and fit: "data_size d \<le> getFreeSpace p"
    and f: "find_free_slot p 0 = Inr r" and ne: "r \<noteq> INVALID_SLOT_OFFSET"
  shows "insertRecord d p = (Inr r, snd (priv_insertRecord r d p))"
proof -
  from find_free_slot_reuse(1) [OF f ne] have "r < capacity p" .
  from priv_insertRecord_eq [OF this, of d]
  obtain q where q: "priv_insertRecord r d p = (Inr (), q)" by simp
  moreover from fit have "\<not> getFreeSpace p < data_size d" by simp
  ultimately show ?thesis
    using len f ne by (simp add: insertRecord_def Let_def)
qed

lemma insertRecord_grow:
  assumes inv: "core_inv p"
    and len: "data_size d \<noteq> 0" and fit: "data_size d \<le> getFreeSpace p"
    and f: "find_free_slot p 0 = Inr INVALID_SLOT_OFFSET"
  shows "insertRecord d p =
    (Inr (capacity p),
     snd (priv_insertRecord (capacity p) d
       (p\<lparr>capacity := capacity p + 1,
          free_space_begin := free_space_begin p + sizeof_SlotInfo,
          slot_directory := (slot_directory p)
              (unat (capacity p) := \<lparr>offset = INVALID_SLOT_OFFSET, length_rec = 0\<rparr>)\<rparr>)))"
proof -
  let ?p1 = "p\<lparr>capacity := capacity p + 1, free_space_begin := free_space_begin p + sizeof_SlotInfo\<rparr>"
  let ?p2 = "p\<lparr>capacity := capacity p + 1,
          free_space_begin := free_space_begin p + sizeof_SlotInfo,
          slot_directory := (slot_directory p)
              (unat (capacity p) := \<lparr>offset = INVALID_SLOT_OFFSET, length_rec = 0\<rparr>)\<rparr>"
  have "unat (capacity p) \<le> 509" by (rule core_inv_capacity_le [OF inv])
  then have "unat (capacity p + 1) = unat (capacity p) + 1" by (simp add: u32_add)
  then have lt: "capacity p < capacity p + 1" by (simp add: word_less_nat_alt)
  then have lt1: "capacity p < capacity ?p1" and lt2: "capacity p < capacity ?p2" by simp_all
  have same: "priv_insertRecord (capacity p) d ?p1 = priv_insertRecord (capacity p) d ?p2"
    unfolding priv_insertRecord_eq [OF lt1] priv_insertRecord_eq [OF lt2] by simp
  from priv_insertRecord_eq [OF lt2, of d]
  obtain q where q: "priv_insertRecord (capacity p) d ?p2 = (Inr (), q)" by simp
  moreover from fit have "\<not> getFreeSpace p < data_size d" by simp
  ultimately show ?thesis
    using len f same by (simp add: insertRecord_def Let_def)
qed

text \<open>A successful insert keeps the invariant; a failed one leaves the page as it was.\<close>

lemma full_inv_insertRecord:
  assumes inv: "full_inv p"
  shows "full_inv (snd (insertRecord d p))"
    and "fst (insertRecord d p) = Inl EmptyDataHeapPage \<or>
         fst (insertRecord d p) = Inl InsufficientSpaceHeapPage \<Longrightarrow> snd (insertRecord d p) = p"
    and "data_size d \<noteq> 0 \<Longrightarrow> data_size d \<le> getFreeSpace p \<Longrightarrow> \<exists>r. fst (insertRecord d p) = Inr r"
    and "data_size d = 0 \<Longrightarrow> insertRecord d p = (Inl EmptyDataHeapPage, p)"
    and "data_size d \<noteq> 0 \<Longrightarrow> getFreeSpace p < data_size d \<Longrightarrow>
           insertRecord d p = (Inl InsufficientSpaceHeapPage, p)"
proof -
  from inv have ci: "core_inv p" and tl: "trailing_live p" by (simp_all add: full_inv_def)
  from ci have fe_le: "unat (free_space_end p) \<le> 4096" by (simp add: core_inv_def)
  show e0: "data_size d = 0 \<Longrightarrow> insertRecord d p = (Inl EmptyDataHeapPage, p)"
    by (simp add: insertRecord_def)
  show e1: "data_size d \<noteq> 0 \<Longrightarrow> getFreeSpace p < data_size d \<Longrightarrow>
           insertRecord d p = (Inl InsufficientSpaceHeapPage, p)"
    by (simp add: insertRecord_def)
  have ok: "full_inv (snd (insertRecord d p)) \<and> (\<exists>r. fst (insertRecord d p) = Inr r)"
    if len: "data_size d \<noteq> 0" and fit: "data_size d \<le> getFreeSpace p"
  proof -
    obtain r where f: "find_free_slot p 0 = Inr r" using find_free_slot_Inr by blast
    show ?thesis
    proof (cases "r = INVALID_SLOT_OFFSET")
      case False
      note r = find_free_slot_reuse [OF f False]
      note eq = insertRecord_reuse [OF len fit f False]
      note fits = insert_reuse_fits [OF ci fit r(1,2)]
      from fits have fits': "unat (data_size d) \<le> unat (free_space_end p)" by simp
      note eff = priv_insertRecord_effects [OF r(1) fe_le fits']
      have "core_inv (snd (priv_insertRecord r d p))"
        by (rule core_inv_insert [OF ci r(1,2) len fits])
      moreover have "trailing_live (snd (priv_insertRecord r d p))"
        using tl by (simp add: trailing_live_def eff(2) eff(10))
      ultimately show ?thesis by (simp add: eq full_inv_def)
    next
      case True
      let ?p2 = "p\<lparr>capacity := capacity p + 1,
          free_space_begin := free_space_begin p + sizeof_SlotInfo,
          slot_directory := (slot_directory p)
              (unat (capacity p) := \<lparr>offset = INVALID_SLOT_OFFSET, length_rec = 0\<rparr>)\<rparr>"
      from f True have f': "find_free_slot p 0 = Inr INVALID_SLOT_OFFSET" by simp
      note eq = insertRecord_grow [OF ci len fit f']
      note fits = insert_grow_fits [OF ci len fit find_free_slot_full [OF f']]
      from fits have room: "unat (free_space_begin p) + 8 \<le> unat (free_space_end p)" by simp
      have ci2: "core_inv ?p2" by (rule core_inv_grow [OF ci room])
      have c: "unat (capacity p) \<le> 509" by (rule core_inv_capacity_le [OF ci])
      then have c1: "unat (capacity p + 1) = unat (capacity p) + 1" by (simp add: u32_add)
      then have lt: "capacity p < capacity ?p2" by (simp add: word_less_nat_alt)
      have nl: "\<not> live ?p2 (unat (capacity p))" by (simp add: live_def)
      from ci have fb: "unat (free_space_begin p) = 24 + 8 * unat (capacity p)"
        by (simp add: core_inv_def)
      have "unat (free_space_begin p + sizeof_SlotInfo) = unat (free_space_begin p) + 8"
        using fb c by (simp add: sizeof_SlotInfo_def u32_add)
      then have fits2: "unat (free_space_begin ?p2) + unat (data_size d) \<le> unat (free_space_end ?p2)"
        using fits by simp
      from fits have fits': "unat (data_size d) \<le> unat (free_space_end ?p2)" by simp
      from fe_le have fe_le2: "unat (free_space_end ?p2) \<le> 4096" by simp
      note eff = priv_insertRecord_effects [OF lt fe_le2 fits']
      have "core_inv (snd (priv_insertRecord (capacity p) d ?p2))"
        by (rule core_inv_insert [OF ci2 lt nl len fits2])
      moreover have "trailing_live (snd (priv_insertRecord (capacity p) d ?p2))"
        using c1 by (simp add: trailing_live_def eff(2) eff(10))
      ultimately show ?thesis by (simp add: eq full_inv_def)
    qed
  qed
  show "full_inv (snd (insertRecord d p))"
  proof (cases "data_size d = 0")
    case True
    with inv show ?thesis by (simp add: e0)
  next
    case False
    show ?thesis
    proof (cases "getFreeSpace p < data_size d")
      case True
      with False inv show ?thesis by (simp add: e1)
    next
      case False
      then have "data_size d \<le> getFreeSpace p" by (simp add: not_less)
      from ok [OF \<open>data_size d \<noteq> 0\<close> this] show ?thesis by simp
    qed
  qed
  show "data_size d \<noteq> 0 \<Longrightarrow> data_size d \<le> getFreeSpace p \<Longrightarrow> \<exists>r. fst (insertRecord d p) = Inr r"
    using ok by simp
  show "snd (insertRecord d p) = p"
    if a: "fst (insertRecord d p) = Inl EmptyDataHeapPage \<or>
         fst (insertRecord d p) = Inl InsufficientSpaceHeapPage"
  proof (cases "data_size d = 0")
    case True
    then show ?thesis by (simp add: e0)
  next
    case False
    show ?thesis
    proof (cases "getFreeSpace p < data_size d")
      case True
      with False show ?thesis by (simp add: e1)
    next
      case False
      then have "data_size d \<le> getFreeSpace p" by (simp add: not_less)
      from ok [OF \<open>data_size d \<noteq> 0\<close> this]
      obtain r where "fst (insertRecord d p) = Inr r" by blast
      with a show ?thesis by simp
    qed
  qed
qed

lemma live_slot_id:
  "slot_id < capacity p \<and> live p (unat slot_id) \<longleftrightarrow>
     \<not> capacity p \<le> slot_id \<and> offset (slot_directory p (unat slot_id)) \<noteq> INVALID_SLOT_OFFSET"
  by (auto simp: live_def word_less_nat_alt word_le_nat_alt)

lemma u32_mult: "unat a * unat b < 4294967296 \<Longrightarrow> unat (a * b :: u32) = unat a * unat b"
  by (simp add: unat_mult_lem [THEN iffD1])

lemma deleteRecord_invalid:
  assumes "\<not> (slot_id < capacity p \<and> live p (unat slot_id))"
  shows "deleteRecord slot_id p = (Inl (InvalidSlotIdHeapPage slot_id), p)"
  using assms unfolding live_slot_id
  by (auto simp: deleteRecord_def priv_getSlotInfo_def)

lemma deleteRecord_eq:
  assumes inv: "core_inv p" and sid: "slot_id < capacity p" and lv: "live p (unat slot_id)"
  defines "p1 \<equiv> snd (priv_deleteRecord slot_id p)"
  defines "c' \<equiv> shrink_capacity (slot_directory p1) (capacity p)"
  shows "deleteRecord slot_id p =
    (Inr (), p1\<lparr>capacity := c',
                free_space_begin := free_space_begin p - (capacity p - c') * sizeof_SlotInfo\<rparr>)"
proof -
  note eff = priv_deleteRecord_effects [OF inv sid lv, folded p1_def]
  from eff(1) have pd: "priv_deleteRecord slot_id p = (Inr (), p1)"
    by (simp add: p1_def prod_eq_iff)
  from sid lv have g: "\<not> capacity p \<le> slot_id"
    "offset (slot_directory p (unat slot_id)) \<noteq> INVALID_SLOT_OFFSET"
    using live_slot_id [of slot_id p] by simp_all
  have le: "c' \<le> capacity p" using shrink_capacity_spec [OF refl, of "slot_directory p1" "capacity p"]
    by (simp add: c'_def)
  show ?thesis
  proof (cases "c' < capacity p")
    case True
    then show ?thesis
      using g pd by (simp add: deleteRecord_def priv_getSlotInfo_def Let_def eff(2,3) c'_def)
  next
    case False
    with le have e: "c' = capacity p" by simp
    then have "shrink_capacity (slot_directory p1) (capacity p) = capacity p" by (simp add: c'_def)
    moreover have "p1\<lparr>capacity := capacity p, free_space_begin := free_space_begin p\<rparr> = p1"
      using eff(2,3) by simp
    ultimately show ?thesis
      using g pd e by (simp add: deleteRecord_def priv_getSlotInfo_def Let_def eff(2,3))
  qed
qed

lemma full_inv_deleteRecord:
  assumes inv: "core_inv p" and sid: "slot_id < capacity p" and lv: "live p (unat slot_id)"
  shows "full_inv (snd (deleteRecord slot_id p))"
proof -
  define p1 where "p1 = snd (priv_deleteRecord slot_id p)"
  define c' where "c' = shrink_capacity (slot_directory p1) (capacity p)"
  define fb' where "fb' = free_space_begin p - (capacity p - c') * sizeof_SlotInfo"
  note eff = priv_deleteRecord_effects [OF inv sid lv, folded p1_def]
  note eq = deleteRecord_eq [OF inv sid lv, folded p1_def, folded c'_def, folded fb'_def]
  have ci1: "core_inv p1" unfolding p1_def by (rule core_inv_delete [OF inv sid lv])
  note sh = shrink_capacity_spec [OF refl, of "slot_directory p1" "capacity p", folded c'_def]
  from sh have le: "c' \<le> capacity p" by simp
  then have le': "unat c' \<le> unat (capacity p)" by (simp add: word_le_nat_alt)
  have c: "unat (capacity p) \<le> 509" by (rule core_inv_capacity_le [OF inv])
  from inv have fb: "unat (free_space_begin p) = 24 + 8 * unat (capacity p)"
    by (simp add: core_inv_def)
  have d: "unat (capacity p - c') = unat (capacity p) - unat c'"
    using le' by (simp add: u32_sub)
  have "unat (capacity p - c') * unat (8 :: u32) < 4294967296"
    using d c by simp
  then have "unat ((capacity p - c') * 8) = unat (capacity p - c') * unat (8 :: u32)"
    by (rule u32_mult)
  then have m: "unat ((capacity p - c') * sizeof_SlotInfo) = 8 * (unat (capacity p) - unat c')"
    using d by (simp add: sizeof_SlotInfo_def)
  have fb'_eq: "unat fb' = 24 + 8 * unat c'"
    using fb m le' unfolding fb'_def by (simp add: u32_sub)
  have ci: "core_inv (p1\<lparr>capacity := c', free_space_begin := fb'\<rparr>)"
  proof (rule core_inv_shrink [OF ci1])
    show "c' \<le> capacity p1" using le by (simp add: eff(2))
    show "\<forall>j. unat c' \<le> j \<and> j < unat (capacity p1) \<longrightarrow>
        offset (slot_directory p1 j) = INVALID_SLOT_OFFSET"
      using sh by (simp add: eff(2))
    show "unat fb' = 24 + 8 * unat c'" by (rule fb'_eq)
  qed
  have "trailing_live (p1\<lparr>capacity := c', free_space_begin := fb'\<rparr>)"
  proof -
    have "live (p1\<lparr>capacity := c', free_space_begin := fb'\<rparr>) (unat c' - 1)" if "0 < c'"
    proof -
      from that have "0 < unat c'" by (simp add: unat_gt_0 word_gt_0)
      with sh that show ?thesis by (simp add: live_def)
    qed
    then show ?thesis by (simp add: trailing_live_def)
  qed
  with ci show ?thesis by (simp add: eq full_inv_def)
qed

lemma update_fits:
  assumes inv: "core_inv p" and lv: "live p s"
    and fit: "\<not> getFreeSpace p + length_rec (slot_directory p s) < data_size d"
  shows "unat (free_space_begin p) + unat (data_size d) \<le> unat (free_space_end p) + slot_len p s"
proof -
  from inv have fb_le: "unat (free_space_begin p) \<le> unat (free_space_end p)"
    and fe_le: "unat (free_space_end p) \<le> 4096"
    by (simp_all add: core_inv_def)
  have g: "unat (getFreeSpace p) \<le> unat (free_space_end p) - unat (free_space_begin p)"
    by (auto simp: getFreeSpace_nat [OF inv])
  from core_inv_live_bounds [OF inv lv] have l: "slot_len p s \<le> 4096" by simp
  have "unat (getFreeSpace p + length_rec (slot_directory p s)) = unat (getFreeSpace p) + slot_len p s"
    using g l fe_le by (simp add: u32_add slot_len_def)
  with fit have "unat (data_size d) \<le> unat (getFreeSpace p) + slot_len p s"
    by (simp add: word_less_nat_alt)
  with g fb_le show ?thesis by simp
qed

lemma updateRecord_invalid:
  assumes "\<not> (slot_id < capacity p \<and> live p (unat slot_id))"
  shows "updateRecord slot_id d p = (Inl (InvalidSlotIdHeapPage slot_id), p)"
  using assms unfolding live_slot_id
  by (auto simp: updateRecord_def priv_getSlotInfo_def)

lemma updateRecord_empty:
  assumes "slot_id < capacity p" "live p (unat slot_id)" "data_size d = 0"
  shows "updateRecord slot_id d p = (Inl EmptyDataHeapPage, p)"
  using assms live_slot_id [of slot_id p]
  by (simp add: updateRecord_def priv_getSlotInfo_def)

lemma updateRecord_nospace:
  assumes "slot_id < capacity p" "live p (unat slot_id)" "data_size d \<noteq> 0"
    "getFreeSpace p + length_rec (slot_directory p (unat slot_id)) < data_size d"
  shows "updateRecord slot_id d p = (Inl InsufficientSpaceHeapPage, p)"
  using assms live_slot_id [of slot_id p]
  by (simp add: updateRecord_def priv_getSlotInfo_def)

lemma updateRecord_eq:
  assumes inv: "core_inv p" and sid: "slot_id < capacity p" and lv: "live p (unat slot_id)"
    and len: "data_size d \<noteq> 0"
    and fit: "\<not> getFreeSpace p + length_rec (slot_directory p (unat slot_id)) < data_size d"
  shows "updateRecord slot_id d p =
    (Inr (), snd (priv_insertRecord slot_id d (snd (priv_deleteRecord slot_id p))))"
proof -
  define p1 where "p1 = snd (priv_deleteRecord slot_id p)"
  note eff = priv_deleteRecord_effects [OF inv sid lv, folded p1_def]
  from eff(1) have pd: "priv_deleteRecord slot_id p = (Inr (), p1)"
    by (simp add: p1_def prod_eq_iff)
  from sid have sid1: "slot_id < capacity p1" by (simp add: eff(2))
  from priv_insertRecord_eq [OF sid1, of d]
  have pi: "priv_insertRecord slot_id d p1 = (Inr (), snd (priv_insertRecord slot_id d p1))"
    by simp
  from sid lv have g: "\<not> capacity p \<le> slot_id"
    "offset (slot_directory p (unat slot_id)) \<noteq> INVALID_SLOT_OFFSET"
    using live_slot_id [of slot_id p] by simp_all
  have "updateRecord slot_id d p = priv_insertRecord slot_id d p1"
    using g len fit pd by (simp add: updateRecord_def priv_getSlotInfo_def)
  with pi show ?thesis by (simp add: p1_def)
qed

lemma full_inv_updateRecord:
  assumes inv: "full_inv p" and sid: "slot_id < capacity p" and lv: "live p (unat slot_id)"
    and len: "data_size d \<noteq> 0"
    and fit: "\<not> getFreeSpace p + length_rec (slot_directory p (unat slot_id)) < data_size d"
  shows "full_inv (snd (updateRecord slot_id d p))"
proof -
  from inv have ci: "core_inv p" and tl: "trailing_live p" by (simp_all add: full_inv_def)
  define p1 where "p1 = snd (priv_deleteRecord slot_id p)"
  note eff = priv_deleteRecord_effects [OF ci sid lv, folded p1_def]
  note eq = updateRecord_eq [OF ci sid lv len fit, folded p1_def]
  have ci1: "core_inv p1" unfolding p1_def by (rule core_inv_delete [OF ci sid lv])
  from sid have sid1: "slot_id < capacity p1" by (simp add: eff(2))
  have nl: "\<not> live p1 (unat slot_id)" by (simp add: eff(14))
  from update_fits [OF ci lv fit]
  have fits: "unat (free_space_begin p1) + unat (data_size d) \<le> unat (free_space_end p1)"
    by (simp add: eff(3) eff(6))
  then have fits': "unat (data_size d) \<le> unat (free_space_end p1)" by simp
  from ci1 have fe1: "unat (free_space_end p1) \<le> 4096" by (simp add: core_inv_def)
  note eff2 = priv_insertRecord_effects [OF sid1 fe1 fits']
  have "core_inv (snd (priv_insertRecord slot_id d p1))"
    by (rule core_inv_insert [OF ci1 sid1 nl len fits])
  moreover have "\<And>i. live (snd (priv_insertRecord slot_id d p1)) i \<longleftrightarrow> live p i"
    using lv by (auto simp: eff2(10) eff(14))
  then have "trailing_live (snd (priv_insertRecord slot_id d p1))"
    using tl by (simp add: trailing_live_def eff2(2) eff(2))
  ultimately show ?thesis by (simp add: eq full_inv_def)
qed

section \<open>Reachable pages satisfy the invariants\<close>

lemma live_slots_code [code]:
  "live_slots p = Set.filter (live p) {0..<unat (capacity p)}"
  by (auto simp: live_slots_def live_def)

lemma full_inv_initializeHeader: "full_inv (initializeHeader p)"
proof -
  have "live_slots (initializeHeader p) = {}"
    by (simp add: live_slots_def live_def initializeHeader_def)
  then show ?thesis
    by (simp add: full_inv_def core_inv_def trailing_live_def live_def initializeHeader_def
        const_defs)
qed

lemma full_inv_links:
  assumes "full_inv p"
  shows "full_inv (p\<lparr>prev_page := a\<rparr>)" "full_inv (p\<lparr>next_page := b\<rparr>)"
proof -
  from assms have ci: "core_inv p" and tl: "trailing_live p" by (simp_all add: full_inv_def)
  from ci have fb: "unat (free_space_begin p) = 24 + 8 * unat (capacity p)"
    "unat (free_space_begin p) \<le> unat (free_space_end p)"
    by (simp_all add: core_inv_def)
  have "core_inv (p\<lparr>prev_page := a\<rparr>)"
    by (rule core_inv_cong [OF ci]) (use fb in \<open>simp_all add: live_def\<close>)
  moreover have "core_inv (p\<lparr>next_page := b\<rparr>)"
    by (rule core_inv_cong [OF ci]) (use fb in \<open>simp_all add: live_def\<close>)
  ultimately show "full_inv (p\<lparr>prev_page := a\<rparr>)" "full_inv (p\<lparr>next_page := b\<rparr>)"
    using tl by (simp_all add: full_inv_def trailing_live_def live_def)
qed

lemma deleteRecord_success:
  assumes "deleteRecord slot_id p = (Inr u, p')"
  shows "slot_id < capacity p" "live p (unat slot_id)"
  using assms deleteRecord_invalid [of slot_id p] by auto

lemma updateRecord_success:
  assumes "updateRecord slot_id d p = (Inr u, p')"
  shows "slot_id < capacity p" "live p (unat slot_id)" "data_size d \<noteq> 0"
    "\<not> getFreeSpace p + length_rec (slot_directory p (unat slot_id)) < data_size d"
proof -
  show a: "slot_id < capacity p" and b: "live p (unat slot_id)"
    using assms updateRecord_invalid [of slot_id p d] by auto
  show c: "data_size d \<noteq> 0"
    using assms updateRecord_empty [OF a b, of d] by auto
  show "\<not> getFreeSpace p + length_rec (slot_directory p (unat slot_id)) < data_size d"
    using assms updateRecord_nospace [OF a b c] by auto
qed

lemma reachable_full_inv: "reachable p \<Longrightarrow> full_inv p"
proof (induction rule: reachable.induct)
  case (reach_init p)
  show ?case by (rule full_inv_initializeHeader)
next
  case (reach_insert p d slot_id p')
  from full_inv_insertRecord(1) [OF reach_insert.IH, of d] reach_insert.hyps(2)
  show ?case by simp
next
  case (reach_delete p slot_id p')
  from reach_delete.IH have ci: "core_inv p" by (simp add: full_inv_def)
  note s = deleteRecord_success [OF reach_delete.hyps(2)]
  from full_inv_deleteRecord [OF ci s] reach_delete.hyps(2) show ?case by simp
next
  case (reach_update p slot_id d p')
  note s = updateRecord_success [OF reach_update.hyps(2)]
  from full_inv_updateRecord [OF reach_update.IH s] reach_update.hyps(2) show ?case by simp
next
  case (reach_setPrev p page_num)
  then show ?case by (simp add: setPrev_def full_inv_links)
next
  case (reach_setNext p page_num)
  then show ?case by (simp add: setNext_def full_inv_links)
qed

lemma rec_range_disjoint:
  assumes "slot_off p i + slot_len p i \<le> slot_off p j \<or> slot_off p j + slot_len p j \<le> slot_off p i"
  shows "rec_range p i \<inter> rec_range p j = {}"
  using assms by (auto simp: rec_range_def)

lemma core_inv_tiling:
  assumes inv: "core_inv p"
  shows "inv_tiling p"
proof -
  note rng = core_inv_live_bounds [OF inv]
  have dis: "\<forall>i\<in>live_slots p. \<forall>j\<in>live_slots p. i \<noteq> j \<longrightarrow> rec_range p i \<inter> rec_range p j = {}"
  proof (intro ballI impI)
    fix i j assume "i \<in> live_slots p" "j \<in> live_slots p" "i \<noteq> j"
    then have "live p i" "live p j" "i \<noteq> j" by (simp_all add: live_slots_def)
    from core_inv_disjoint [OF inv this] show "rec_range p i \<inter> rec_range p j = {}"
      by (rule rec_range_disjoint)
  qed
  let ?U = "\<Union>i\<in>live_slots p. rec_range p i"
  let ?I = "{unat (free_space_end p) ..< 4096}"
  have sub: "?U \<subseteq> ?I"
  proof
    fix a assume "a \<in> ?U"
    then obtain i where i: "i \<in> live_slots p" and a: "a \<in> rec_range p i" by blast
    from i have "live p i" by (simp add: live_slots_def)
    from rng(1) [OF this] rng(2) [OF this] a show "a \<in> ?I" by (simp add: rec_range_def)
  qed
  have "card ?U = (\<Sum>i\<in>live_slots p. card (rec_range p i))"
    by (rule card_UN_disjoint [OF finite_live_slots _ dis]) (simp add: rec_range_def)
  also have "\<dots> = (\<Sum>i\<in>live_slots p. slot_len p i)"
    by (simp add: rec_range_def)
  also have "\<dots> = card ?I"
    using inv by (simp add: core_inv_def)
  finally have "card ?U = card ?I" .
  with sub have "?U = ?I" by (intro card_subset_eq) simp_all
  with dis show ?thesis by (simp add: inv_tiling_def PAGE_SIZE_def)
qed

lemma full_inv_page_inv:
  assumes inv: "full_inv p"
  shows "page_inv p"
proof -
  from inv have ci: "core_inv p" and tl: "trailing_live p" by (simp_all add: full_inv_def)
  from ci have fb: "unat (free_space_begin p) = 24 + 8 * unat (capacity p)"
    and fb_le: "unat (free_space_begin p) \<le> unat (free_space_end p)"
    and fe_le: "unat (free_space_end p) \<le> 4096"
    and sz: "unat (size_hdr p) = card (live_slots p)"
    by (simp_all add: core_inv_def)
  have "inv_bounds p"
    using fb fb_le fe_le by (simp add: inv_bounds_def word_le_nat_alt const_defs)
  moreover have "inv_directory p"
    using fb by (simp add: inv_directory_def const_defs)
  moreover have "inv_size p"
    using sz core_inv_size_le [OF ci] by (simp add: inv_size_def)
  moreover have "inv_tiling p" by (rule core_inv_tiling [OF ci])
  moreover have "inv_nonempty p"
  proof -
    have "length_rec (slot_directory p i) \<noteq> 0" if "i \<in> live_slots p" for i
    proof -
      from that have "live p i" by (simp add: live_slots_def)
      from core_inv_live_bounds(3) [OF ci this] show ?thesis
        by (auto simp: slot_len_def)
    qed
    then show ?thesis by (simp add: inv_nonempty_def)
  qed
  ultimately show ?thesis using tl by (simp add: page_inv_def)
qed

lemma full_inv_deleteRecord_any:
  assumes inv: "full_inv p"
  shows "full_inv (snd (deleteRecord slot_id p))"
proof (cases "slot_id < capacity p \<and> live p (unat slot_id)")
  case True
  from inv have "core_inv p" by (simp add: full_inv_def)
  from full_inv_deleteRecord [OF this] True show ?thesis by simp
next
  case False
  from deleteRecord_invalid [OF False] inv show ?thesis by simp
qed

lemma full_inv_updateRecord_any:
  assumes inv: "full_inv p"
  shows "full_inv (snd (updateRecord slot_id d p))"
proof (cases "slot_id < capacity p \<and> live p (unat slot_id)")
  case False
  from updateRecord_invalid [OF False] inv show ?thesis by simp
next
  case True
  then have sid: "slot_id < capacity p" and lv: "live p (unat slot_id)" by simp_all
  show ?thesis
  proof (cases "data_size d = 0")
    case True
    from updateRecord_empty [OF sid lv True] inv show ?thesis by simp
  next
    case False
    note len = this
    show ?thesis
    proof (cases "getFreeSpace p + length_rec (slot_directory p (unat slot_id)) < data_size d")
      case True
      from updateRecord_nospace [OF sid lv len True] inv show ?thesis by simp
    next
      case False
      from full_inv_updateRecord [OF inv sid lv len False] show ?thesis .
    qed
  qed
qed

section \<open>The scenarios of the specification, evaluated\<close>

lemmas eval_defs = insertRecord_def deleteRecord_def updateRecord_def getRecord_def
  priv_insertRecord_def priv_deleteRecord_def priv_getSlotInfo_def getFreeSpace_def
  initializeHeader_def find_free_slot.simps adjust_offsets.simps shrink_capacity.simps
  fill_record_def raw_page_def const_defs Let_def word_le_nat_alt word_less_nat_alt

lemmas page_defs = page_a_def page_b_def page_c_def page_d_def page_e_def page_f_def
  page_g_def page_u_def

lemma ex_insert_a: "insertRecord (fill_record 10 1) (initializeHeader raw_page) = (Inr 0, page_a)"
  by (simp add: page_defs eval_defs)

lemma ex_insert_b: "insertRecord (fill_record 15 2) page_a = (Inr 1, page_b)"
  by (simp add: page_defs eval_defs)

lemma ex_insert_c: "insertRecord (fill_record 20 3) page_b = (Inr 2, page_c)"
  by (simp add: page_defs eval_defs)

lemma ex_delete_d: "deleteRecord 1 page_c = (Inr (), page_d)"
  by (simp add: page_defs eval_defs fun_upd_twist)

lemma ex_insert_e: "insertRecord (fill_record 7 4) page_d = (Inr 1, page_e)"
  by (simp add: page_defs eval_defs)

lemma ex_delete_f: "deleteRecord 0 page_c = (Inr (), page_f)"
  by (simp add: page_defs eval_defs fun_upd_twist)

lemma ex_delete_g: "deleteRecord 1 page_f = (Inr (), page_g)"
  by (simp add: page_defs eval_defs fun_upd_twist)

lemma ex_update_u: "updateRecord 0 (fill_record 12 9) page_c = (Inr (), page_u)"
  by (simp add: page_defs eval_defs fun_upd_twist)

lemma reachable_page_a: "reachable page_a"
  by (rule reach_insert [OF reach_init ex_insert_a])

lemma reachable_page_b: "reachable page_b"
  by (rule reach_insert [OF reachable_page_a ex_insert_b])

lemma reachable_page_c: "reachable page_c"
  by (rule reach_insert [OF reachable_page_b ex_insert_c])

lemma reachable_page_d: "reachable page_d"
  by (rule reach_delete [OF reachable_page_c ex_delete_d])

lemma reachable_page_f: "reachable page_f"
  by (rule reach_delete [OF reachable_page_c ex_delete_f])

lemma reachable_page_g: "reachable page_g"
  by (rule reach_delete [OF reachable_page_f ex_delete_g])

section \<open>The claims\<close>

text \<open>
  Claim C1. Every page reachable from \<open>initializeHeader\<close> by successful public
  operations satisfies the six invariants of the data model: the bounds
  \<open>sizeof(Header) \<le> free_begin \<le> free_end \<le> PAGE_SIZE\<close>; \<open>free_begin\<close> is the end of
  the directory; \<open>size\<close> counts the live entries and is at most \<open>capacity\<close>; the
  ranges of the live records are pairwise disjoint and tile \<open>[free_end, PAGE_SIZE)\<close>;
  the last directory entry is live when the directory is not empty; and no live entry
  has length 0. They hold before each operation and after it, whether the call returns
  or throws.
\<close>

theorem C1_invariants:
  assumes "reachable p"
  shows "page_inv p \<and>
         page_inv (snd (insertRecord d p)) \<and>
         page_inv (snd (deleteRecord slot_id p)) \<and>
         page_inv (snd (updateRecord slot_id d p)) \<and>
         page_inv (setPrev page_num p) \<and>
         page_inv (setNext page_num p)"
proof -
  from assms have inv: "full_inv p" by (rule reachable_full_inv)
  have "page_inv p" by (rule full_inv_page_inv [OF inv])
  moreover have "page_inv (snd (insertRecord d p))"
    by (rule full_inv_page_inv [OF full_inv_insertRecord(1) [OF inv]])
  moreover have "page_inv (snd (deleteRecord slot_id p))"
    by (rule full_inv_page_inv [OF full_inv_deleteRecord_any [OF inv]])
  moreover have "page_inv (snd (updateRecord slot_id d p))"
    by (rule full_inv_page_inv [OF full_inv_updateRecord_any [OF inv]])
  moreover have "page_inv (setPrev page_num p)"
    unfolding setPrev_def by (rule full_inv_page_inv [OF full_inv_links(1) [OF inv]])
  moreover have "page_inv (setNext page_num p)"
    unfolding setNext_def by (rule full_inv_page_inv [OF full_inv_links(2) [OF inv]])
  ultimately show ?thesis by (intro conjI)
qed

theorem C1_invariants_witness: "page_inv page_d \<and> page_inv (snd (deleteRecord 0 page_d))"
proof -
  from C1_invariants [OF reachable_page_d, of "fill_record 7 4" 0 0]
  show ?thesis by blast
qed

text \<open>
  Claim C2. On a reachable page \<open>insertRecord\<close> succeeds, returning a slot id, exactly
  when the record has at least one byte and \<open>getFreeSpace\<close> is at least its length. A
  record of length 0 fails with \<open>EmptyDataHeapPage\<close>, a record longer than
  \<open>getFreeSpace\<close> with \<open>InsufficientSpaceHeapPage\<close>, and both leave the page as it was.
\<close>

theorem C2_insertRecord_precondition:
  assumes "reachable p"
  shows "((\<exists>slot_id p'. insertRecord d p = (Inr slot_id, p')) \<longleftrightarrow>
            1 \<le> data_size d \<and> data_size d \<le> getFreeSpace p) \<and>
         (data_size d = 0 \<longrightarrow> insertRecord d p = (Inl EmptyDataHeapPage, p)) \<and>
         (1 \<le> data_size d \<and> getFreeSpace p < data_size d \<longrightarrow>
            insertRecord d p = (Inl InsufficientSpaceHeapPage, p))"
proof -
  from assms have inv: "full_inv p" by (rule reachable_full_inv)
  note ins = full_inv_insertRecord [OF inv, of d]
  have ok: "\<exists>slot_id p'. insertRecord d p = (Inr slot_id, p')"
    if "1 \<le> data_size d" "data_size d \<le> getFreeSpace p"
  proof -
    from that(1) have "data_size d \<noteq> 0" by (simp add: u32_one_le)
    from ins(3) [OF this that(2)] obtain r where "fst (insertRecord d p) = Inr r" ..
    then have "insertRecord d p = (Inr r, snd (insertRecord d p))" by (simp add: prod_eq_iff)
    then show ?thesis by blast
  qed
  have no: "1 \<le> data_size d \<and> data_size d \<le> getFreeSpace p"
    if "insertRecord d p = (Inr slot_id, p')" for slot_id p'
  proof (rule ccontr)
    assume "\<not> (1 \<le> data_size d \<and> data_size d \<le> getFreeSpace p)"
    then consider "data_size d = 0" | "data_size d \<noteq> 0" "getFreeSpace p < data_size d"
      by (auto simp: u32_one_le not_le)
    then show False
    proof cases
      case 1
      from ins(4) [OF 1] that show False by simp
    next
      case 2
      from ins(5) [OF 2] that show False by simp
    qed
  qed
  have iff: "(\<exists>slot_id p'. insertRecord d p = (Inr slot_id, p')) \<longleftrightarrow>
            1 \<le> data_size d \<and> data_size d \<le> getFreeSpace p"
    using ok no by blast
  have e1: "1 \<le> data_size d \<and> getFreeSpace p < data_size d \<longrightarrow>
            insertRecord d p = (Inl InsufficientSpaceHeapPage, p)"
    using ins(5) by (simp add: u32_one_le)
  from iff ins(4) e1 show ?thesis by blast
qed

theorem C2_insertRecord_precondition_witness:
  "(\<exists>slot_id p'. insertRecord (fill_record 7 4) page_d = (Inr slot_id, p')) \<and>
   insertRecord (fill_record 0 4) page_d = (Inl EmptyDataHeapPage, page_d) \<and>
   insertRecord (fill_record 4019 4) page_d = (Inl InsufficientSpaceHeapPage, page_d)"
proof -
  have g: "getFreeSpace page_d = 4018" by (simp add: page_defs eval_defs)
  have a: "(1 :: u32) \<le> data_size (fill_record 7 4) \<and> data_size (fill_record 7 4) \<le> getFreeSpace page_d"
    by (simp add: g fill_record_def word_le_nat_alt)
  have b: "data_size (fill_record 0 4) = 0" by (simp add: fill_record_def)
  have c: "(1 :: u32) \<le> data_size (fill_record 4019 4) \<and> getFreeSpace page_d < data_size (fill_record 4019 4)"
    by (simp add: g fill_record_def word_le_nat_alt word_less_nat_alt)
  from C2_insertRecord_precondition [OF reachable_page_d, of "fill_record 7 4"] a
    C2_insertRecord_precondition [OF reachable_page_d, of "fill_record 0 4"] b
    C2_insertRecord_precondition [OF reachable_page_d, of "fill_record 4019 4"] c
  show ?thesis by blast
qed

text \<open>
  Claim C3. On a reachable page \<open>getFreeSpace\<close> is \<open>free_end - free_begin\<close> when
  \<open>size < capacity\<close>. When \<open>size = capacity\<close> it is
  \<open>free_end - free_begin - sizeof(SlotInfo)\<close> if \<open>free_end - free_begin\<close> is at least
  \<open>sizeof(SlotInfo)\<close>, and 0 otherwise. The differences are the numbers' own: no
  subtraction wraps around, and one of the two cases always applies.
\<close>

theorem C3_getFreeSpace:
  assumes "reachable p"
  shows "free_space_begin p \<le> free_space_end p \<and>
         (size_hdr p < capacity p \<or> size_hdr p = capacity p) \<and>
         (size_hdr p < capacity p \<longrightarrow>
            getFreeSpace p = free_space_end p - free_space_begin p \<and>
            unat (getFreeSpace p) = unat (free_space_end p) - unat (free_space_begin p)) \<and>
         (size_hdr p = capacity p \<longrightarrow>
            (if sizeof_SlotInfo \<le> free_space_end p - free_space_begin p
             then getFreeSpace p = free_space_end p - free_space_begin p - sizeof_SlotInfo \<and>
                  unat (getFreeSpace p) =
                    unat (free_space_end p) - unat (free_space_begin p) - unat sizeof_SlotInfo
             else getFreeSpace p = 0))"
proof -
  from assms have inv: "full_inv p" by (rule reachable_full_inv)
  then have ci: "core_inv p" by (simp add: full_inv_def)
  from ci have "unat (free_space_begin p) \<le> unat (free_space_end p)" by (simp add: core_inv_def)
  then have le: "free_space_begin p \<le> free_space_end p" by (simp add: word_le_nat_alt)
  from core_inv_size_le [OF ci] have sc: "size_hdr p < capacity p \<or> size_hdr p = capacity p"
    by auto
  note raw = core_inv_raw_free [OF ci]
  have lt: "getFreeSpace p = free_space_end p - free_space_begin p \<and>
            unat (getFreeSpace p) = unat (free_space_end p) - unat (free_space_begin p)"
    if "size_hdr p < capacity p"
  proof -
    from that have "size_hdr p \<noteq> capacity p" by auto
    then show ?thesis using raw by (simp add: getFreeSpace_def Let_def)
  qed
  have eq: "if sizeof_SlotInfo \<le> free_space_end p - free_space_begin p
             then getFreeSpace p = free_space_end p - free_space_begin p - sizeof_SlotInfo \<and>
                  unat (getFreeSpace p) =
                    unat (free_space_end p) - unat (free_space_begin p) - unat sizeof_SlotInfo
             else getFreeSpace p = 0"
    if "size_hdr p = capacity p"
  proof (cases "sizeof_SlotInfo \<le> free_space_end p - free_space_begin p")
    case True
    with that have g: "getFreeSpace p = free_space_end p - free_space_begin p - sizeof_SlotInfo"
      by (simp add: getFreeSpace_def Let_def)
    from that getFreeSpace_nat [OF ci]
    have n: "unat (getFreeSpace p) =
        unat (free_space_end p) - unat (free_space_begin p) - unat sizeof_SlotInfo"
      by (simp add: sizeof_SlotInfo_def)
    from True g n show ?thesis by (simp only: if_True simp_thms)
  next
    case False
    with that have "getFreeSpace p = 0" by (simp add: getFreeSpace_def Let_def)
    with False show ?thesis by (simp only: if_False)
  qed
  from le sc lt eq show ?thesis by blast
qed

theorem C3_getFreeSpace_witness:
  "unat (getFreeSpace page_d) = unat (free_space_end page_d) - unat (free_space_begin page_d) \<and>
   unat (getFreeSpace page_c) =
     unat (free_space_end page_c) - unat (free_space_begin page_c) - unat sizeof_SlotInfo"
proof -
  have d: "size_hdr page_d < capacity page_d"
    by (simp add: page_defs eval_defs)
  have c: "size_hdr page_c = capacity page_c"
    "sizeof_SlotInfo \<le> free_space_end page_c - free_space_begin page_c"
    by (simp_all add: page_defs eval_defs)
  from C3_getFreeSpace [OF reachable_page_d] d
  have "unat (getFreeSpace page_d) = unat (free_space_end page_d) - unat (free_space_begin page_d)"
    by blast
  moreover have "unat (getFreeSpace page_c) =
     unat (free_space_end page_c) - unat (free_space_begin page_c) - unat sizeof_SlotInfo"
  proof -
    from C3_getFreeSpace [OF reachable_page_c] c(1)
    have i: "if sizeof_SlotInfo \<le> free_space_end page_c - free_space_begin page_c
             then getFreeSpace page_c = free_space_end page_c - free_space_begin page_c - sizeof_SlotInfo \<and>
                  unat (getFreeSpace page_c) =
                    unat (free_space_end page_c) - unat (free_space_begin page_c) - unat sizeof_SlotInfo
             else getFreeSpace page_c = 0"
      by blast
    from i [unfolded if_P [OF c(2)]] show ?thesis by (rule conjunct2)
  qed
  ultimately show ?thesis by (rule conjI)
qed

lemma memcpy_written: "k < n \<Longrightarrow> memcpy buf dst src n (dst + k) = src k"
  by (simp add: memcpy_def)

lemma memcpy_other: "a < dst \<or> dst + n \<le> a \<Longrightarrow> memcpy buf dst src n a = buf a"
  by (auto simp: memcpy_def)

lemma core_inv_size_succ:
  assumes "core_inv p"
  shows "unat (size_hdr p + 1) = unat (size_hdr p) + 1"
proof -
  from assms have "unat (size_hdr p) = card (live_slots p)" by (simp add: core_inv_def)
  with card_live_slots_le [of p] core_inv_capacity_le [OF assms]
  have "unat (size_hdr p) \<le> 509" by simp
  then show ?thesis by (simp add: u32_add)
qed

text \<open>
  Claim C4. On a reachable page, an insert of a record of \<open>L \<ge> 1\<close> bytes with
  \<open>getFreeSpace \<ge> L\<close> succeeds. When the directory has a free entry, the slot id
  returned is the smallest index of a free entry, and \<open>capacity\<close> and \<open>free_begin\<close>
  stay; when it has none, the slot id is the old \<open>capacity\<close>, \<open>capacity\<close> grows by one
  and \<open>free_begin\<close> by \<open>sizeof(SlotInfo)\<close>. In both cases \<open>free_end\<close> goes down by
  \<open>L\<close>, the \<open>L\<close> bytes of the record stand in the page from the new \<open>free_end\<close> on,
  the entry of the slot holds the new \<open>free_end\<close> and \<open>L\<close>, and \<open>size\<close> grows by one.
\<close>

theorem C4_insertRecord_effect:
  assumes "reachable p" and "1 \<le> data_size d" and "data_size d \<le> getFreeSpace p"
  shows "\<exists>slot_id p'. insertRecord d p = (Inr slot_id, p') \<and>
      (if \<exists>i < unat (capacity p). \<not> live p i
       then slot_id < capacity p \<and> \<not> live p (unat slot_id) \<and>
            (\<forall>j < unat slot_id. live p j) \<and>
            capacity p' = capacity p \<and> free_space_begin p' = free_space_begin p
       else slot_id = capacity p \<and> unat (capacity p') = unat (capacity p) + 1 \<and>
            unat (free_space_begin p') = unat (free_space_begin p) + unat sizeof_SlotInfo) \<and>
      unat (data_size d) \<le> unat (free_space_end p) \<and>
      unat (free_space_end p') = unat (free_space_end p) - unat (data_size d) \<and>
      (\<forall>k < unat (data_size d). data p' (unat (free_space_end p') + k) = data_bytes d k) \<and>
      slot_directory p' (unat slot_id) =
        \<lparr>offset = free_space_end p', length_rec = data_size d\<rparr> \<and>
      unat (size_hdr p') = unat (size_hdr p) + 1"
proof -
  from assms(1) have inv: "full_inv p" by (rule reachable_full_inv)
  then have ci: "core_inv p" by (simp add: full_inv_def)
  from ci have fe_le: "unat (free_space_end p) \<le> 4096"
    and fb: "unat (free_space_begin p) = 24 + 8 * unat (capacity p)"
    by (simp_all add: core_inv_def)
  from assms(2) have len: "data_size d \<noteq> 0" by (simp add: u32_one_le)
  note fit = assms(3)
  obtain r where f: "find_free_slot p 0 = Inr r" using find_free_slot_Inr by blast
  show ?thesis
  proof (cases "r = INVALID_SLOT_OFFSET")
    case False
    note r = find_free_slot_reuse [OF f False]
    define q where "q = snd (priv_insertRecord r d p)"
    note eq = insertRecord_reuse [OF len fit f False, folded q_def]
    note fits = insert_reuse_fits [OF ci fit r(1,2)]
    from fits have fits': "unat (data_size d) \<le> unat (free_space_end p)" by simp
    note eff = priv_insertRecord_effects [OF r(1) fe_le fits', folded q_def]
    from r(1) have "unat r < unat (capacity p)" by (simp add: word_less_nat_alt)
    with r(2) have ex: "\<exists>i < unat (capacity p). \<not> live p i" by blast
    have bytes: "\<forall>k < unat (data_size d). data q (unat (free_space_end q) + k) = data_bytes d k"
      by (simp add: eff(11) memcpy_written)
    have entry: "slot_directory q (unat r) = \<lparr>offset = free_space_end q, length_rec = data_size d\<rparr>"
      by (simp add: eff(9))
    have sz: "unat (size_hdr q) = unat (size_hdr p) + 1"
      by (simp add: eff(8) core_inv_size_succ [OF ci])
    have "r < capacity p \<and> \<not> live p (unat r) \<and> (\<forall>j < unat r. live p j) \<and>
            capacity q = capacity p \<and> free_space_begin q = free_space_begin p"
      using r eff(2) eff(3) by simp
    then have cond: "if \<exists>i < unat (capacity p). \<not> live p i
       then r < capacity p \<and> \<not> live p (unat r) \<and>
            (\<forall>j < unat r. live p j) \<and>
            capacity q = capacity p \<and> free_space_begin q = free_space_begin p
       else r = capacity p \<and> unat (capacity q) = unat (capacity p) + 1 \<and>
            unat (free_space_begin q) = unat (free_space_begin p) + unat sizeof_SlotInfo"
      unfolding if_P [OF ex] .
    from eq cond fits' eff(6) bytes entry sz show ?thesis by blast
  next
    case True
    let ?p2 = "p\<lparr>capacity := capacity p + 1,
          free_space_begin := free_space_begin p + sizeof_SlotInfo,
          slot_directory := (slot_directory p)
              (unat (capacity p) := \<lparr>offset = INVALID_SLOT_OFFSET, length_rec = 0\<rparr>)\<rparr>"
    define q where "q = snd (priv_insertRecord (capacity p) d ?p2)"
    from f True have f': "find_free_slot p 0 = Inr INVALID_SLOT_OFFSET" by simp
    note full = find_free_slot_full [OF f']
    then have nex: "\<not> (\<exists>i < unat (capacity p). \<not> live p i)" by blast
    note eq = insertRecord_grow [OF ci len fit f', folded q_def]
    note fits = insert_grow_fits [OF ci len fit full]
    have c: "unat (capacity p) \<le> 509" by (rule core_inv_capacity_le [OF ci])
    then have c1: "unat (capacity p + 1) = unat (capacity p) + 1" by (simp add: u32_add)
    then have lt: "capacity p < capacity ?p2" by (simp add: word_less_nat_alt)
    have fb1: "unat (free_space_begin p + sizeof_SlotInfo) = unat (free_space_begin p) + unat sizeof_SlotInfo"
      using fb c by (simp add: sizeof_SlotInfo_def u32_add)
    from fits have fits': "unat (data_size d) \<le> unat (free_space_end ?p2)" by simp
    from fe_le have fe_le2: "unat (free_space_end ?p2) \<le> 4096" by simp
    note eff = priv_insertRecord_effects [OF lt fe_le2 fits', folded q_def]
    have bytes: "\<forall>k < unat (data_size d). data q (unat (free_space_end q) + k) = data_bytes d k"
      by (simp add: eff(11) memcpy_written)
    have entry: "slot_directory q (unat (capacity p)) =
        \<lparr>offset = free_space_end q, length_rec = data_size d\<rparr>"
      by (simp add: eff(9))
    have sz: "unat (size_hdr q) = unat (size_hdr p) + 1"
      using core_inv_size_succ [OF ci] by (simp add: eff(8))
    have "capacity p = capacity p \<and> unat (capacity q) = unat (capacity p) + 1 \<and>
            unat (free_space_begin q) = unat (free_space_begin p) + unat sizeof_SlotInfo"
      using c1 fb1 by (simp add: eff(2) eff(3))
    then have cond: "if \<exists>i < unat (capacity p). \<not> live p i
       then capacity p < capacity p \<and> \<not> live p (unat (capacity p)) \<and>
            (\<forall>j < unat (capacity p). live p j) \<and>
            capacity q = capacity p \<and> free_space_begin q = free_space_begin p
       else capacity p = capacity p \<and> unat (capacity q) = unat (capacity p) + 1 \<and>
            unat (free_space_begin q) = unat (free_space_begin p) + unat sizeof_SlotInfo"
      unfolding if_not_P [OF nex] .
    have le: "unat (data_size d) \<le> unat (free_space_end p)" using fits' by simp
    have fe: "unat (free_space_end q) = unat (free_space_end p) - unat (data_size d)"
      using eff(6) by simp
    from eq cond le fe bytes entry sz show ?thesis by blast
  qed
qed

theorem C4_insertRecord_effect_witness:
  "\<exists>slot_id p'. insertRecord (fill_record 7 4) page_d = (Inr slot_id, p') \<and>
     slot_id < capacity page_d \<and> \<not> live page_d (unat slot_id) \<and>
     capacity p' = capacity page_d \<and>
     unat (free_space_end p') = unat (free_space_end page_d) - unat (data_size (fill_record 7 4)) \<and>
     unat (size_hdr p') = unat (size_hdr page_d) + 1"
proof -
  have g: "getFreeSpace page_d = 4018" by (simp add: page_defs eval_defs)
  have a: "1 \<le> data_size (fill_record 7 4)" "data_size (fill_record 7 4) \<le> getFreeSpace page_d"
    by (simp_all add: g fill_record_def word_le_nat_alt)
  have ex: "\<exists>i < unat (capacity page_d). \<not> live page_d i"
  proof (intro exI conjI)
    show "1 < unat (capacity page_d)" by (simp add: page_defs eval_defs)
    show "\<not> live page_d 1" by (simp add: live_def page_defs eval_defs)
  qed
  from C4_insertRecord_effect [OF reachable_page_d a]
  obtain slot_id p' where h: "insertRecord (fill_record 7 4) page_d = (Inr slot_id, p')"
    "if \<exists>i < unat (capacity page_d). \<not> live page_d i
       then slot_id < capacity page_d \<and> \<not> live page_d (unat slot_id) \<and>
            (\<forall>j < unat slot_id. live page_d j) \<and>
            capacity p' = capacity page_d \<and> free_space_begin p' = free_space_begin page_d
       else slot_id = capacity page_d \<and> unat (capacity p') = unat (capacity page_d) + 1 \<and>
            unat (free_space_begin p') = unat (free_space_begin page_d) + unat sizeof_SlotInfo"
    "unat (free_space_end p') = unat (free_space_end page_d) - unat (data_size (fill_record 7 4))"
    "unat (size_hdr p') = unat (size_hdr page_d) + 1"
    by blast
  from h(2) [unfolded if_P [OF ex]] h(1,3,4) show ?thesis by blast
qed

lemma memmove_moved: "k < n \<Longrightarrow> memmove buf dst src n (dst + k) = buf (src + k)"
  by (simp add: memmove_def)

lemma memmove_other: "a < dst \<or> dst + n \<le> a \<Longrightarrow> memmove buf dst src n a = buf a"
  by (auto simp: memmove_def)

text \<open>What a valid deleteRecord leaves, in numbers.\<close>

lemma deleteRecord_effects:
  assumes inv: "core_inv p" and sid: "slot_id < capacity p" and lv: "live p (unat slot_id)"
  defines "p1 \<equiv> snd (priv_deleteRecord slot_id p)"
  defines "q \<equiv> snd (deleteRecord slot_id p)"
  shows "deleteRecord slot_id p = (Inr (), q)"
    and "slot_directory q = slot_directory p1"
    and "data q = data p1"
    and "free_space_end q = free_space_end p1"
    and "size_hdr q = size_hdr p1"
    and "capacity q \<le> capacity p"
    and "\<forall>j. unat (capacity q) \<le> j \<and> j < unat (capacity p) \<longrightarrow>
           offset (slot_directory q j) = INVALID_SLOT_OFFSET"
    and "capacity q = 0 \<or> live q (unat (capacity q) - 1)"
    and "unat (free_space_begin q) = 24 + 8 * unat (capacity q)"
    and "capacity q = shrink_capacity (slot_directory p1) (capacity p)"
proof -
  define c' where "c' = shrink_capacity (slot_directory p1) (capacity p)"
  define fb' where "fb' = free_space_begin p - (capacity p - c') * sizeof_SlotInfo"
  note eq = deleteRecord_eq [OF inv sid lv, folded p1_def, folded c'_def, folded fb'_def]
  have q: "q = p1\<lparr>capacity := c', free_space_begin := fb'\<rparr>" by (simp add: q_def eq)
  show "deleteRecord slot_id p = (Inr (), q)" by (simp add: q eq)
  show "slot_directory q = slot_directory p1" "data q = data p1"
    "free_space_end q = free_space_end p1" "size_hdr q = size_hdr p1"
    by (simp_all add: q)
  show "capacity q = shrink_capacity (slot_directory p1) (capacity p)" by (simp add: q c'_def)
  note sh = shrink_capacity_spec [OF refl, of "slot_directory p1" "capacity p", folded c'_def]
  from sh show "capacity q \<le> capacity p" by (simp add: q)
  from sh show "\<forall>j. unat (capacity q) \<le> j \<and> j < unat (capacity p) \<longrightarrow>
           offset (slot_directory q j) = INVALID_SLOT_OFFSET"
    by (simp add: q)
  show "capacity q = 0 \<or> live q (unat (capacity q) - 1)"
  proof (cases "c' = 0")
    case True
    then show ?thesis by (simp add: q)
  next
    case False
    then have "0 < c'" by (simp add: word_gt_0)
    moreover from this have "0 < unat c'" by (simp add: unat_gt_0 word_gt_0)
    ultimately show ?thesis using sh by (simp add: q live_def)
  qed
  from sh have le': "unat c' \<le> unat (capacity p)" by (simp add: word_le_nat_alt)
  have c: "unat (capacity p) \<le> 509" by (rule core_inv_capacity_le [OF inv])
  from inv have fb: "unat (free_space_begin p) = 24 + 8 * unat (capacity p)"
    by (simp add: core_inv_def)
  have d: "unat (capacity p - c') = unat (capacity p) - unat c'"
    using le' by (simp add: u32_sub)
  have "unat (capacity p - c') * unat (8 :: u32) < 4294967296"
    using d c by simp
  then have "unat ((capacity p - c') * 8) = unat (capacity p - c') * unat (8 :: u32)"
    by (rule u32_mult)
  then have m: "unat ((capacity p - c') * sizeof_SlotInfo) = 8 * (unat (capacity p) - unat c')"
    using d by (simp add: sizeof_SlotInfo_def)
  have "unat fb' = 24 + 8 * unat c'"
    using fb m le' unfolding fb'_def by (simp add: u32_sub)
  then show "unat (free_space_begin q) = 24 + 8 * unat (capacity q)" by (simp add: q)
qed

text \<open>
  Claim C5. On a reachable page, deleting a live slot \<open>s\<close> that holds \<open>(off, len)\<close>
  succeeds. Afterwards the entry of \<open>s\<close> is free (offset \<open>INVALID_SLOT_OFFSET\<close>, length 0),
  \<open>size\<close> is one less, \<open>free_end\<close> is \<open>len\<close> higher, the bytes that stood in
  \<open>[free_end, off)\<close> stand \<open>len\<close> higher, every other live entry with an offset below
  \<open>off\<close> has \<open>len\<close> added to its offset and every other entry is as it was
  (the live ones with an offset above \<open>off\<close> among them), and the directory has lost its
  trailing free entries: the new \<open>capacity\<close> is 0 or has a live entry below it, every
  entry from it to the old \<open>capacity\<close> is free, and \<open>free_begin\<close> is lower by
  \<open>sizeof(SlotInfo)\<close> for each entry dropped. A slot id that is out of range or free
  fails with \<open>InvalidSlotIdHeapPage\<close>, the page unchanged.
\<close>

theorem C5_deleteRecord:
  assumes "reachable p"
  shows "(slot_id < capacity p \<and> live p (unat slot_id) \<longrightarrow>
          (\<exists>p'. deleteRecord slot_id p = (Inr (), p') \<and>
             slot_directory p' (unat slot_id) = \<lparr>offset = INVALID_SLOT_OFFSET, length_rec = 0\<rparr> \<and>
             1 \<le> unat (size_hdr p) \<and> unat (size_hdr p') = unat (size_hdr p) - 1 \<and>
             unat (free_space_end p') = unat (free_space_end p) + slot_len p (unat slot_id) \<and>
             (\<forall>a. unat (free_space_end p) \<le> a \<and> a < slot_off p (unat slot_id) \<longrightarrow>
                  data p' (a + slot_len p (unat slot_id)) = data p a) \<and>
             (\<forall>i. live p i \<and> i \<noteq> unat slot_id \<longrightarrow>
                  slot_len p' i = slot_len p i \<and>
                  (slot_off p i < slot_off p (unat slot_id) \<longrightarrow>
                     slot_off p' i = slot_off p i + slot_len p (unat slot_id)) \<and>
                  (slot_off p (unat slot_id) < slot_off p i \<longrightarrow> slot_off p' i = slot_off p i)) \<and>
             (\<forall>i. i \<noteq> unat slot_id \<and>
                  \<not> (live p i \<and> slot_off p i < slot_off p (unat slot_id)) \<longrightarrow>
                  slot_directory p' i = slot_directory p i) \<and>
             capacity p' \<le> capacity p \<and>
             (\<forall>j. unat (capacity p') \<le> j \<and> j < unat (capacity p) \<longrightarrow>
                  offset (slot_directory p' j) = INVALID_SLOT_OFFSET) \<and>
             (capacity p' = 0 \<or> live p' (unat (capacity p') - 1)) \<and>
             unat (free_space_begin p') + unat sizeof_SlotInfo * (unat (capacity p) - unat (capacity p'))
               = unat (free_space_begin p))) \<and>
         (\<not> (slot_id < capacity p \<and> live p (unat slot_id)) \<longrightarrow>
            deleteRecord slot_id p = (Inl (InvalidSlotIdHeapPage slot_id), p))"
proof (intro conjI impI)
  assume "\<not> (slot_id < capacity p \<and> live p (unat slot_id))"
  then show "deleteRecord slot_id p = (Inl (InvalidSlotIdHeapPage slot_id), p)"
    by (rule deleteRecord_invalid)
next
  assume a: "slot_id < capacity p \<and> live p (unat slot_id)"
  then have sid: "slot_id < capacity p" and lv: "live p (unat slot_id)" by simp_all
  from assms have inv: "full_inv p" by (rule reachable_full_inv)
  then have ci: "core_inv p" by (simp add: full_inv_def)
  define s where "s = unat slot_id"
  define p1 where "p1 = snd (priv_deleteRecord slot_id p)"
  define q where "q = snd (deleteRecord slot_id p)"
  note e1 = priv_deleteRecord_effects [OF ci sid lv, folded p1_def s_def]
  note e2 = deleteRecord_effects [OF ci sid lv, folded p1_def, folded q_def]
  have lvs: "live p s" using lv by (simp add: s_def)
  note bs = core_inv_live_bounds [OF ci lvs]
  have off: "\<And>i. slot_off q i = slot_off p1 i" and len: "\<And>i. slot_len q i = slot_len p1 i"
    by (simp_all add: slot_off_def slot_len_def e2(2))
  have entry: "slot_directory q s = \<lparr>offset = INVALID_SLOT_OFFSET, length_rec = 0\<rparr>"
    by (simp add: e2(2) e1(9))
  have "s \<in> live_slots p" using lvs by (simp add: live_slots_def)
  then have "0 < card (live_slots p)"
    using finite_live_slots [of p] by (auto simp: card_gt_0_iff)
  moreover from ci have "unat (size_hdr p) = card (live_slots p)" by (simp add: core_inv_def)
  ultimately have sz1: "1 \<le> unat (size_hdr p)" by simp
  then have sz: "unat (size_hdr q) = unat (size_hdr p) - 1"
    using u32_sub [of 1 "size_hdr p"] by (simp add: e2(5) e1(8))
  have fe: "unat (free_space_end q) = unat (free_space_end p) + slot_len p s"
    by (simp add: e2(4) e1(6))
  have bytes: "\<forall>a. unat (free_space_end p) \<le> a \<and> a < slot_off p s \<longrightarrow>
                  data q (a + slot_len p s) = data p a"
  proof (intro allI impI, elim conjE)
    fix a assume lo: "unat (free_space_end p) \<le> a" and hi: "a < slot_off p s"
    define k where "k = a - unat (free_space_end p)"
    have k: "k < slot_off p s - unat (free_space_end p)" "a = unat (free_space_end p) + k"
      using lo hi by (simp_all add: k_def)
    have "data q (a + slot_len p s) =
        memmove (data p) (unat (free_space_end p) + slot_len p s) (unat (free_space_end p))
          (slot_off p s - unat (free_space_end p)) ((unat (free_space_end p) + slot_len p s) + k)"
      using k(2) by (simp add: e2(3) e1(15) add.commute add.left_commute)
    also have "\<dots> = data p (unat (free_space_end p) + k)"
      by (rule memmove_moved [OF k(1)])
    finally show "data q (a + slot_len p s) = data p a" using k(2) by simp
  qed
  have others: "\<forall>i. live p i \<and> i \<noteq> s \<longrightarrow>
                  slot_len q i = slot_len p i \<and>
                  (slot_off p i < slot_off p s \<longrightarrow> slot_off q i = slot_off p i + slot_len p s) \<and>
                  (slot_off p s < slot_off p i \<longrightarrow> slot_off q i = slot_off p i)"
  proof (intro allI impI, elim conjE)
    fix i assume li: "live p i" and ne: "i \<noteq> s"
    have "slot_len q i = slot_len p i" by (simp add: len e1(11) [OF ne])
    moreover have "slot_off q i = slot_off p i + slot_len p s" if "slot_off p i < slot_off p s"
      using e1(12) [OF ne li that] by (simp add: off)
    moreover have "slot_off q i = slot_off p i" if "slot_off p s < slot_off p i"
    proof -
      from that have "\<not> slot_off p i < slot_off p s" by simp
      from e1(13) [OF ne li this] show ?thesis by (simp add: off)
    qed
    ultimately show "slot_len q i = slot_len p i \<and>
                  (slot_off p i < slot_off p s \<longrightarrow> slot_off q i = slot_off p i + slot_len p s) \<and>
                  (slot_off p s < slot_off p i \<longrightarrow> slot_off q i = slot_off p i)"
      by blast
  qed
  have same: "\<forall>i. i \<noteq> s \<and> \<not> (live p i \<and> slot_off p i < slot_off p s) \<longrightarrow>
                  slot_directory q i = slot_directory p i"
  proof (intro allI impI, elim conjE)
    fix i assume ne: "i \<noteq> s" and nl: "\<not> (live p i \<and> slot_off p i < slot_off p s)"
    from nl have "\<not> (live p i \<and> offset (slot_directory p i) < offset (slot_directory p s))"
      by (simp add: slot_off_def word_less_nat_alt)
    with ne show "slot_directory q i = slot_directory p i"
      using delete_directory_at [OF sid, of "offset (slot_directory p s)"
          "length_rec (slot_directory p s)" i]
      by (auto simp: e2(2) p1_def priv_deleteRecord_eq [OF ci sid lv] s_def)
  qed
  from e2(6) have le': "unat (capacity q) \<le> unat (capacity p)" by (simp add: word_le_nat_alt)
  from ci have "unat (free_space_begin p) = 24 + 8 * unat (capacity p)"
    by (simp add: core_inv_def)
  with e2(9) le' have fb: "unat (free_space_begin q) +
      unat sizeof_SlotInfo * (unat (capacity p) - unat (capacity q)) = unat (free_space_begin p)"
    by (simp add: sizeof_SlotInfo_def)
  from e2(1) entry sz1 sz fe bytes others same e2(6) e2(7) e2(8) fb
  show "\<exists>p'. deleteRecord slot_id p = (Inr (), p') \<and>
             slot_directory p' (unat slot_id) = \<lparr>offset = INVALID_SLOT_OFFSET, length_rec = 0\<rparr> \<and>
             1 \<le> unat (size_hdr p) \<and> unat (size_hdr p') = unat (size_hdr p) - 1 \<and>
             unat (free_space_end p') = unat (free_space_end p) + slot_len p (unat slot_id) \<and>
             (\<forall>a. unat (free_space_end p) \<le> a \<and> a < slot_off p (unat slot_id) \<longrightarrow>
                  data p' (a + slot_len p (unat slot_id)) = data p a) \<and>
             (\<forall>i. live p i \<and> i \<noteq> unat slot_id \<longrightarrow>
                  slot_len p' i = slot_len p i \<and>
                  (slot_off p i < slot_off p (unat slot_id) \<longrightarrow>
                     slot_off p' i = slot_off p i + slot_len p (unat slot_id)) \<and>
                  (slot_off p (unat slot_id) < slot_off p i \<longrightarrow> slot_off p' i = slot_off p i)) \<and>
             (\<forall>i. i \<noteq> unat slot_id \<and>
                  \<not> (live p i \<and> slot_off p i < slot_off p (unat slot_id)) \<longrightarrow>
                  slot_directory p' i = slot_directory p i) \<and>
             capacity p' \<le> capacity p \<and>
             (\<forall>j. unat (capacity p') \<le> j \<and> j < unat (capacity p) \<longrightarrow>
                  offset (slot_directory p' j) = INVALID_SLOT_OFFSET) \<and>
             (capacity p' = 0 \<or> live p' (unat (capacity p') - 1)) \<and>
             unat (free_space_begin p') + unat sizeof_SlotInfo * (unat (capacity p) - unat (capacity p'))
               = unat (free_space_begin p)"
    unfolding s_def by (intro exI [of _ q] conjI)
qed

theorem C5_deleteRecord_witness:
  "(\<exists>p'. deleteRecord 1 page_c = (Inr (), p') \<and>
      slot_directory p' (unat (1 :: u32)) = \<lparr>offset = INVALID_SLOT_OFFSET, length_rec = 0\<rparr> \<and>
      unat (free_space_end p') = unat (free_space_end page_c) + slot_len page_c (unat (1 :: u32))) \<and>
   deleteRecord 1 page_d = (Inl (InvalidSlotIdHeapPage 1), page_d)"
proof -
  have a: "1 < capacity page_c \<and> live page_c (unat (1 :: u32))"
    by (simp add: live_def page_defs eval_defs)
  have b: "\<not> (1 < capacity page_d \<and> live page_d (unat (1 :: u32)))"
    by (simp add: live_def page_defs eval_defs)
  note c = C5_deleteRecord [OF reachable_page_c, of 1]
  note d = C5_deleteRecord [OF reachable_page_d, of 1]
  from mp [OF conjunct1 [OF c] a]
  obtain p' where h: "deleteRecord 1 page_c = (Inr (), p')"
    "slot_directory p' (unat (1 :: u32)) = \<lparr>offset = INVALID_SLOT_OFFSET, length_rec = 0\<rparr>"
    "unat (free_space_end p') = unat (free_space_end page_c) + slot_len page_c (unat (1 :: u32))"
    by (elim exE conjE)
  from mp [OF conjunct2 [OF d] b]
  have f: "deleteRecord 1 page_d = (Inl (InvalidSlotIdHeapPage 1), page_d)" .
  from h f show ?thesis by (intro conjI exI [of _ p'])
qed

text \<open>The space check of updateRecord, in numbers: the sum does not wrap.\<close>

lemma update_check_nat:
  assumes inv: "core_inv p" and lv: "live p s"
  shows "getFreeSpace p + length_rec (slot_directory p s) < data_size d \<longleftrightarrow>
         unat (getFreeSpace p) + slot_len p s < unat (data_size d)"
proof -
  from inv have fe_le: "unat (free_space_end p) \<le> 4096" by (simp add: core_inv_def)
  have g: "unat (getFreeSpace p) \<le> unat (free_space_end p) - unat (free_space_begin p)"
    by (auto simp: getFreeSpace_nat [OF inv])
  from core_inv_live_bounds [OF inv lv] have l: "slot_len p s \<le> 4096" by simp
  have "unat (getFreeSpace p + length_rec (slot_directory p s)) = unat (getFreeSpace p) + slot_len p s"
    using g l fe_le by (simp add: u32_add slot_len_def)
  then show ?thesis by (simp add: word_less_nat_alt)
qed

text \<open>
  The space check of \<open>updateRecord\<close> as the code makes it: the call fails with
  \<open>InsufficientSpaceHeapPage\<close> exactly when \<open>getFreeSpace() + old_len < new_len\<close>, and
  the page is then as it was. \<open>getFreeSpace\<close> is at most \<open>raw_free = free_end - free_begin\<close>,
  so \<open>raw_free + old_len < new_len\<close> always fails that way.
\<close>

lemma updateRecord_space_check:
  assumes "reachable p" and "slot_id < capacity p" and "live p (unat slot_id)"
    and "1 \<le> data_size d"
  shows "(fst (updateRecord slot_id d p) = Inl InsufficientSpaceHeapPage \<longleftrightarrow>
            unat (getFreeSpace p) + slot_len p (unat slot_id) < unat (data_size d)) \<and>
         (fst (updateRecord slot_id d p) = Inl InsufficientSpaceHeapPage \<longrightarrow>
            snd (updateRecord slot_id d p) = p) \<and>
         (unat (free_space_end p) - unat (free_space_begin p) + slot_len p (unat slot_id)
            < unat (data_size d) \<longrightarrow>
            updateRecord slot_id d p = (Inl InsufficientSpaceHeapPage, p))"
proof -
  from assms(1) have inv: "full_inv p" by (rule reachable_full_inv)
  then have ci: "core_inv p" by (simp add: full_inv_def)
  note sid = assms(2) and lv = assms(3)
  from assms(4) have len: "data_size d \<noteq> 0" by (simp add: u32_one_le)
  note chk = update_check_nat [OF ci lv, of d]
  have fail: "updateRecord slot_id d p = (Inl InsufficientSpaceHeapPage, p)"
    if "unat (getFreeSpace p) + slot_len p (unat slot_id) < unat (data_size d)"
    using that chk updateRecord_nospace [OF sid lv len] by simp
  have ok: "fst (updateRecord slot_id d p) = Inr ()"
    if "\<not> unat (getFreeSpace p) + slot_len p (unat slot_id) < unat (data_size d)"
  proof -
    from that chk have "\<not> getFreeSpace p + length_rec (slot_directory p (unat slot_id)) < data_size d"
      by simp
    from updateRecord_eq [OF ci sid lv len this] show ?thesis by simp
  qed
  have iff: "fst (updateRecord slot_id d p) = Inl InsufficientSpaceHeapPage \<longleftrightarrow>
            unat (getFreeSpace p) + slot_len p (unat slot_id) < unat (data_size d)"
  proof
    assume f: "fst (updateRecord slot_id d p) = Inl InsufficientSpaceHeapPage"
    show "unat (getFreeSpace p) + slot_len p (unat slot_id) < unat (data_size d)"
    proof (rule ccontr)
      assume "\<not> unat (getFreeSpace p) + slot_len p (unat slot_id) < unat (data_size d)"
      from ok [OF this] f show False by simp
    qed
  next
    assume "unat (getFreeSpace p) + slot_len p (unat slot_id) < unat (data_size d)"
    from fail [OF this] show "fst (updateRecord slot_id d p) = Inl InsufficientSpaceHeapPage"
      by simp
  qed
  have unch: "fst (updateRecord slot_id d p) = Inl InsufficientSpaceHeapPage \<longrightarrow>
            snd (updateRecord slot_id d p) = p"
    using iff fail by auto
  have g_le: "unat (getFreeSpace p) \<le> unat (free_space_end p) - unat (free_space_begin p)"
    by (auto simp: getFreeSpace_nat [OF ci])
  have raw: "unat (free_space_end p) - unat (free_space_begin p) + slot_len p (unat slot_id)
            < unat (data_size d) \<longrightarrow>
            updateRecord slot_id d p = (Inl InsufficientSpaceHeapPage, p)"
    using g_le fail by auto
  from iff unch raw show ?thesis by (intro conjI)
qed

text \<open>
  The body of \<open>updateRecord\<close>, \<open>_deleteRecord\<close> followed by \<open>_insertRecord\<close> into the same
  slot, needs no new directory entry. Run on a page where the new record fits into
  \<open>raw_free + old_len\<close> bytes, both steps succeed and leave a page that satisfies the
  invariants, with the new record in the slot.
\<close>

lemma update_body_fits:
  assumes inv: "full_inv p" and sid: "slot_id < capacity p" and lv: "live p (unat slot_id)"
    and len: "data_size d \<noteq> 0"
    and raw: "\<not> unat (free_space_end p) - unat (free_space_begin p) + slot_len p (unat slot_id)
               < unat (data_size d)"
  defines "q \<equiv> snd (priv_insertRecord slot_id d (snd (priv_deleteRecord slot_id p)))"
  shows "fst (priv_deleteRecord slot_id p) = Inr ()"
    and "fst (priv_insertRecord slot_id d (snd (priv_deleteRecord slot_id p))) = Inr ()"
    and "full_inv q"
    and "live q (unat slot_id)"
    and "slot_directory q (unat slot_id) = \<lparr>offset = free_space_end q, length_rec = data_size d\<rparr>"
    and "\<forall>k < unat (data_size d). data q (unat (free_space_end q) + k) = data_bytes d k"
proof -
  from inv have ci: "core_inv p" and tl: "trailing_live p" by (simp_all add: full_inv_def)
  define p1 where "p1 = snd (priv_deleteRecord slot_id p)"
  note eff = priv_deleteRecord_effects [OF ci sid lv, folded p1_def]
  have ci1: "core_inv p1" unfolding p1_def by (rule core_inv_delete [OF ci sid lv])
  from sid have sid1: "slot_id < capacity p1" by (simp add: eff(2))
  have nl: "\<not> live p1 (unat slot_id)" by (simp add: eff(14))
  from ci have fb_le: "unat (free_space_begin p) \<le> unat (free_space_end p)"
    by (simp add: core_inv_def)
  from raw fb_le
  have fits: "unat (free_space_begin p1) + unat (data_size d) \<le> unat (free_space_end p1)"
    by (simp add: eff(3) eff(6))
  then have fits': "unat (data_size d) \<le> unat (free_space_end p1)" by simp
  from ci1 have fe1: "unat (free_space_end p1) \<le> 4096" by (simp add: core_inv_def)
  have q: "q = snd (priv_insertRecord slot_id d p1)" by (simp add: q_def p1_def)
  note eff2 = priv_insertRecord_effects [OF sid1 fe1 fits', folded q]
  show "fst (priv_deleteRecord slot_id p) = Inr ()" by (rule eff(1))
  show "fst (priv_insertRecord slot_id d (snd (priv_deleteRecord slot_id p))) = Inr ()"
    using eff2(1) by (simp add: p1_def)
  have "core_inv q" unfolding q by (rule core_inv_insert [OF ci1 sid1 nl len fits])
  moreover have "\<And>i. live q i \<longleftrightarrow> live p i"
    using lv by (auto simp: eff2(10) eff(14))
  then have "trailing_live q"
    using tl by (simp add: trailing_live_def eff2(2) eff(2))
  ultimately show "full_inv q" by (simp add: full_inv_def)
  show "live q (unat slot_id)" by (simp add: eff2(10))
  show "slot_directory q (unat slot_id) = \<lparr>offset = free_space_end q, length_rec = data_size d\<rparr>"
    by (simp add: eff2(9))
  show "\<forall>k < unat (data_size d). data q (unat (free_space_end q) + k) = data_bytes d k"
    by (simp add: eff2(11) memcpy_written)
qed

text \<open>
  Claim C6. The claim: on a reachable page, for a live slot with a record of \<open>old_len\<close>
  bytes and a new record of \<open>new_len \<ge> 1\<close> bytes, \<open>updateRecord\<close> fails with
  \<open>InsufficientSpaceHeapPage\<close> if and only if \<open>raw_free + old_len < new_len\<close>, with
  \<open>raw_free = free_end - free_begin\<close>. The code does not do that. Its guard is
  \<open>getFreeSpace() + slot->length < record_data->getSize()\<close>, and \<open>getFreeSpace\<close> keeps
  \<open>sizeof(SlotInfo)\<close> bytes back for a new directory entry when the directory has no free
  entry, although an update never adds one. So whenever the new record fits into
  \<open>raw_free + old_len\<close> bytes but not into \<open>getFreeSpace() + old_len\<close> (which needs
  \<open>size = capacity\<close>), the call is refused with \<open>InsufficientSpaceHeapPage\<close>, the page
  unchanged, although the body of \<open>updateRecord\<close> run on that page succeeds and leaves a
  page that satisfies the six invariants and holds the new record in the slot: there was
  enough space for the updated record, against the documentation of \<open>updateRecord\<close>.
\<close>

theorem C6_updateRecord_code_bug:
  assumes "reachable p" and "slot_id < capacity p" and "live p (unat slot_id)"
    and "1 \<le> data_size d"
    and "\<not> unat (free_space_end p) - unat (free_space_begin p) + slot_len p (unat slot_id)
           < unat (data_size d)"
    and "unat (getFreeSpace p) + slot_len p (unat slot_id) < unat (data_size d)"
  shows "updateRecord slot_id d p = (Inl InsufficientSpaceHeapPage, p) \<and>
         size_hdr p = capacity p \<and>
         fst (priv_deleteRecord slot_id p) = Inr () \<and>
         (\<exists>q. priv_insertRecord slot_id d (snd (priv_deleteRecord slot_id p)) = (Inr (), q) \<and>
            page_inv q \<and> live q (unat slot_id) \<and>
            slot_directory q (unat slot_id) =
              \<lparr>offset = free_space_end q, length_rec = data_size d\<rparr> \<and>
            (\<forall>k < unat (data_size d). data q (unat (free_space_end q) + k) = data_bytes d k))"
proof -
  from assms(1) have inv: "full_inv p" by (rule reachable_full_inv)
  then have ci: "core_inv p" by (simp add: full_inv_def)
  note sid = assms(2) and lv = assms(3)
  from assms(4) have len: "data_size d \<noteq> 0" by (simp add: u32_one_le)
  from assms(6) update_check_nat [OF ci lv, of d] updateRecord_nospace [OF sid lv len]
  have fail: "updateRecord slot_id d p = (Inl InsufficientSpaceHeapPage, p)" by simp
  have full: "size_hdr p = capacity p"
  proof (rule ccontr)
    assume "size_hdr p \<noteq> capacity p"
    then have "unat (getFreeSpace p) = unat (free_space_end p) - unat (free_space_begin p)"
      by (simp add: getFreeSpace_nat [OF ci])
    with assms(5) assms(6) show False by simp
  qed
  define q where "q = snd (priv_insertRecord slot_id d (snd (priv_deleteRecord slot_id p)))"
  note b = update_body_fits [OF inv sid lv len assms(5), folded q_def]
  from b(2) have ins: "priv_insertRecord slot_id d (snd (priv_deleteRecord slot_id p)) = (Inr (), q)"
    by (simp add: q_def prod_eq_iff)
  from b(3) have pi: "page_inv q" by (rule full_inv_page_inv)
  from ins pi b(4) b(5) b(6)
  have ex: "\<exists>q. priv_insertRecord slot_id d (snd (priv_deleteRecord slot_id p)) = (Inr (), q) \<and>
            page_inv q \<and> live q (unat slot_id) \<and>
            slot_directory q (unat slot_id) =
              \<lparr>offset = free_space_end q, length_rec = data_size d\<rparr> \<and>
            (\<forall>k < unat (data_size d). data q (unat (free_space_end q) + k) = data_bytes d k)"
    by (intro exI [of _ q] conjI)
  from fail full b(1) ex show ?thesis by (intro conjI)
qed

text \<open>
  The failing input: \<open>page_a\<close> (one record of 10 bytes in slot 0, \<open>size = capacity = 1\<close>,
  \<open>raw_free = 4054\<close>) and an update of slot 0 to 4060 bytes. \<open>raw_free + old_len = 4064\<close>
  is not below 4060, and the call fails with \<open>InsufficientSpaceHeapPage\<close>.
\<close>

theorem C6_updateRecord_code_bug_witness:
  "reachable page_a \<and> 0 < capacity page_a \<and> live page_a (unat (0 :: u32)) \<and>
   1 \<le> data_size (fill_record 4060 9) \<and>
   \<not> (unat (free_space_end page_a) - unat (free_space_begin page_a)
        + slot_len page_a (unat (0 :: u32)) < unat (data_size (fill_record 4060 9))) \<and>
   updateRecord 0 (fill_record 4060 9) page_a = (Inl InsufficientSpaceHeapPage, page_a) \<and>
   fst (priv_deleteRecord 0 page_a) = Inr () \<and>
   (\<exists>q. priv_insertRecord 0 (fill_record 4060 9) (snd (priv_deleteRecord 0 page_a)) = (Inr (), q) \<and>
      page_inv q \<and> live q (unat (0 :: u32)))"
proof -
  have a: "0 < capacity page_a" "live page_a (unat (0 :: u32))"
    "1 \<le> data_size (fill_record 4060 9)"
    "\<not> (unat (free_space_end page_a) - unat (free_space_begin page_a)
        + slot_len page_a (unat (0 :: u32)) < unat (data_size (fill_record 4060 9)))"
    "unat (getFreeSpace page_a) + slot_len page_a (unat (0 :: u32))
       < unat (data_size (fill_record 4060 9))"
    by (simp_all add: live_def slot_len_def page_defs eval_defs)
  note t = C6_updateRecord_code_bug [OF reachable_page_a a(1,2,3,4,5)]
  from t have f: "updateRecord 0 (fill_record 4060 9) page_a = (Inl InsufficientSpaceHeapPage, page_a)"
    by (elim conjE)
  from t have d: "fst (priv_deleteRecord 0 page_a) = Inr ()"
    by (elim conjE)
  from t obtain q where q: "priv_insertRecord 0 (fill_record 4060 9) (snd (priv_deleteRecord 0 page_a)) = (Inr (), q)"
    "page_inv q" "live q (unat (0 :: u32))"
    by (elim conjE exE)
  from q have ex: "\<exists>q. priv_insertRecord 0 (fill_record 4060 9) (snd (priv_deleteRecord 0 page_a)) = (Inr (), q) \<and>
      page_inv q \<and> live q (unat (0 :: u32))"
    by (intro exI [of _ q] conjI)
  from reachable_page_a a(1,2,3,4) f d ex show ?thesis by (intro conjI)
qed

text \<open>
  Claim C7. On a reachable page, after \<open>updateRecord(sid, d')\<close> has succeeded,
  \<open>getRecord(sid)\<close> into a buffer whose capacity is at least the length of \<open>d'\<close> succeeds,
  sets the size of the buffer to that length and fills it with the bytes of \<open>d'\<close>; the
  record is still the one of slot \<open>sid\<close>, which is live.
\<close>

theorem C7_update_get_roundtrip:
  assumes "reachable p" and "updateRecord slot_id d' p = (Inr (), p')"
    and "data_size d' \<le> data_capacity buf"
  shows "slot_id < capacity p' \<and> live p' (unat slot_id) \<and>
         (\<exists>out. getRecord slot_id buf p' = Inr out \<and> data_size out = data_size d' \<and>
            (\<forall>k < unat (data_size d'). data_bytes out k = data_bytes d' k))"
proof -
  from assms(1) have inv: "full_inv p" by (rule reachable_full_inv)
  then have ci: "core_inv p" by (simp add: full_inv_def)
  note s = updateRecord_success [OF assms(2)]
  note sid = s(1) and lv = s(2) and len = s(3) and fit = s(4)
  define p1 where "p1 = snd (priv_deleteRecord slot_id p)"
  note eff = priv_deleteRecord_effects [OF ci sid lv, folded p1_def]
  from updateRecord_eq [OF ci sid lv len fit, folded p1_def] assms(2)
  have p': "p' = snd (priv_insertRecord slot_id d' p1)" by simp
  have ci1: "core_inv p1" unfolding p1_def by (rule core_inv_delete [OF ci sid lv])
  from sid have sid1: "slot_id < capacity p1" by (simp add: eff(2))
  from update_fits [OF ci lv fit]
  have fits': "unat (data_size d') \<le> unat (free_space_end p1)"
    by (simp add: eff(3) eff(6))
  from ci1 have fe1: "unat (free_space_end p1) \<le> 4096" by (simp add: core_inv_def)
  note eff2 = priv_insertRecord_effects [OF sid1 fe1 fits', folded p']
  have cap: "slot_id < capacity p'" using sid by (simp add: eff2(2) eff(2))
  have lv': "live p' (unat slot_id)" by (simp add: eff2(10))
  have entry: "slot_directory p' (unat slot_id) =
      \<lparr>offset = free_space_end p', length_rec = data_size d'\<rparr>"
    by (simp add: eff2(9))
  from lv' have ne: "free_space_end p' \<noteq> INVALID_SLOT_OFFSET"
    by (simp add: live_def entry)
  from cap have ncap: "\<not> capacity p' \<le> slot_id" by simp
  from assms(3) have nsz: "\<not> data_capacity buf < data_size d'" by simp
  define out where "out = buf\<lparr>data_size := data_size d',
      data_bytes := (\<lambda>i. if i < unat (data_size d') then data p' (unat (free_space_end p') + i)
                          else data_bytes buf i)\<rparr>"
  have get: "getRecord slot_id buf p' = Inr out"
    using ncap ne nsz
    by (simp add: getRecord_def priv_getSlotInfo_def entry out_def cong: if_cong)
  have "\<forall>k < unat (data_size d'). data_bytes out k = data_bytes d' k"
    by (simp add: out_def eff2(11) memcpy_written)
  moreover have "data_size out = data_size d'" by (simp add: out_def)
  ultimately show ?thesis using cap lv' get by blast
qed

theorem C7_update_get_roundtrip_witness:
  "\<exists>out. getRecord 0 (fill_record 50 0) page_u = Inr out \<and>
     data_size out = data_size (fill_record 12 9) \<and>
     (\<forall>k < unat (data_size (fill_record 12 9)). data_bytes out k = data_bytes (fill_record 12 9) k)"
proof -
  have "data_size (fill_record 12 9) \<le> data_capacity (fill_record 50 0)"
    by (simp add: fill_record_def word_le_nat_alt)
  from C7_update_get_roundtrip [OF reachable_page_c ex_update_u this]
  show ?thesis by blast
qed

text \<open>The entries that are live after a valid deleteRecord.\<close>

lemma deleteRecord_live:
  assumes inv: "core_inv p" and sid: "slot_id < capacity p" and lv: "live p (unat slot_id)"
  defines "q \<equiv> snd (deleteRecord slot_id p)"
  shows "live q j \<longleftrightarrow> live p j \<and> j \<noteq> unat slot_id"
    and "live q j \<Longrightarrow> j < unat (capacity q)"
proof -
  define p1 where "p1 = snd (priv_deleteRecord slot_id p)"
  note e1 = priv_deleteRecord_effects [OF inv sid lv, folded p1_def]
  note e2 = deleteRecord_effects [OF inv sid lv, folded p1_def, folded q_def]
  from e2(6) have le: "unat (capacity q) \<le> unat (capacity p)" by (simp add: word_le_nat_alt)
  have l1: "live p1 j \<longleftrightarrow> live p j \<and> j \<noteq> unat slot_id" by (rule e1(14))
  show "live q j \<longleftrightarrow> live p j \<and> j \<noteq> unat slot_id"
  proof
    assume "live q j"
    then have "j < unat (capacity q)" "offset (slot_directory p1 j) \<noteq> INVALID_SLOT_OFFSET"
      by (simp_all add: live_def e2(2))
    with le have "live p1 j" by (simp add: live_def e1(2))
    with l1 show "live p j \<and> j \<noteq> unat slot_id" by simp
  next
    assume "live p j \<and> j \<noteq> unat slot_id"
    with l1 have "live p1 j" by simp
    then have a: "j < unat (capacity p)" "offset (slot_directory q j) \<noteq> INVALID_SLOT_OFFSET"
      by (simp_all add: live_def e1(2) e2(2))
    have "j < unat (capacity q)"
    proof (rule ccontr)
      assume "\<not> j < unat (capacity q)"
      with a(1) e2(7) have "offset (slot_directory q j) = INVALID_SLOT_OFFSET" by simp
      with a(2) show False by simp
    qed
    with a(2) show "live q j" by (simp add: live_def)
  qed
  show "live q j \<Longrightarrow> j < unat (capacity q)" by (simp add: live_def)
qed

text \<open>
  Claim C8, as the specification states it: on a reachable page, after deleting a live
  slot \<open>s\<close> that is not the last directory entry, the next insert of a record that fits
  returns \<open>s\<close>. The insert returns the first free entry, and an entry below \<open>s\<close> may be
  free already: on \<open>page_f\<close> slot 0 is free and slots 1 and 2 are live; after deleting
  slot 1 the next insert returns slot 0.
\<close>

theorem C8_slot_reuse_counterexample:
  "reachable page_f \<and> 1 < capacity page_f \<and> live page_f (unat (1 :: u32)) \<and>
   unat (1 :: u32) \<noteq> unat (capacity page_f) - 1 \<and>
   deleteRecord 1 page_f = (Inr (), page_g) \<and>
   1 \<le> data_size (fill_record 5 7) \<and> data_size (fill_record 5 7) \<le> getFreeSpace page_g \<and>
   fst (insertRecord (fill_record 5 7) page_g) = Inr 0 \<and>
   fst (insertRecord (fill_record 5 7) page_g) \<noteq> Inr 1"
proof -
  have "fst (insertRecord (fill_record 5 7) page_g) = Inr 0"
    by (simp add: page_defs eval_defs)
  moreover have "1 < capacity page_f" "live page_f (unat (1 :: u32))"
    "unat (1 :: u32) \<noteq> unat (capacity page_f) - 1"
    "1 \<le> data_size (fill_record 5 7)" "data_size (fill_record 5 7) \<le> getFreeSpace page_g"
    by (simp_all add: live_def page_defs eval_defs)
  ultimately show ?thesis using reachable_page_f ex_delete_g by simp
qed

text \<open>
  Claim C8, amended: after deleting a live slot \<open>s\<close>, the next insert of a record that
  fits returns the smallest free slot id: the slot it returns is not live and every slot
  id below it is live. It is at most \<open>s\<close>, and it is \<open>s\<close> exactly when every slot id
  below \<open>s\<close> is live. When \<open>s\<close> is not the last live directory entry, the returned slot
  id is an entry of the directory, marked free. (For the last live entry the directory
  shrinks, and the insert grows it again by the entry it returns.)
\<close>

theorem C8_slot_reuse:
  assumes "reachable p" and "slot_id < capacity p" and "live p (unat slot_id)"
    and "deleteRecord slot_id p = (Inr (), p')"
    and "1 \<le> data_size d" and "data_size d \<le> getFreeSpace p'"
  shows "\<exists>r p''. insertRecord d p' = (Inr r, p'') \<and>
           \<not> live p' (unat r) \<and> (\<forall>j < unat r. live p' j) \<and>
           r \<le> slot_id \<and> (r = slot_id \<longleftrightarrow> (\<forall>j < unat slot_id. live p j)) \<and>
           ((\<exists>j. unat slot_id < j \<and> live p j) \<longrightarrow>
              r < capacity p' \<and> offset (slot_directory p' (unat r)) = INVALID_SLOT_OFFSET)"
proof -
  from assms(1) have inv: "full_inv p" by (rule reachable_full_inv)
  then have ci: "core_inv p" by (simp add: full_inv_def)
  note sid = assms(2) and lv = assms(3)
  define s where "s = unat slot_id"
  from assms(4) have q: "p' = snd (deleteRecord slot_id p)" by simp
  note lq = deleteRecord_live [OF ci sid lv, folded q, folded s_def]
  have "reachable p'" by (rule reach_delete [OF assms(1) assms(4)])
  then have "full_inv p'" by (rule reachable_full_inv)
  then have ci': "core_inv p'" by (simp add: full_inv_def)
  from assms(5) have len: "data_size d \<noteq> 0" by (simp add: u32_one_le)
  note fit = assms(6)
  have not_s: "\<not> live p' s" by (simp add: lq(1))
  obtain r where f: "find_free_slot p' 0 = Inr r" using find_free_slot_Inr by blast
  have "\<exists>r0. fst (insertRecord d p') = Inr r0 \<and> \<not> live p' (unat r0) \<and>
      (\<forall>j < unat r0. live p' j)"
  proof (cases "r = INVALID_SLOT_OFFSET")
    case False
    note fr = find_free_slot_reuse [OF f False]
    from insertRecord_reuse [OF len fit f False]
    have res: "fst (insertRecord d p') = Inr r" by simp
    from fr(3) have below: "\<forall>j < unat r. live p' j" by simp
    from res fr(2) below show ?thesis by (intro exI [of _ r] conjI)
  next
    case True
    with f have f': "find_free_slot p' 0 = Inr INVALID_SLOT_OFFSET" by simp
    note full = find_free_slot_full [OF f']
    from insertRecord_grow [OF ci' len fit f']
    have res: "fst (insertRecord d p') = Inr (capacity p')" by simp
    have top: "\<not> live p' (unat (capacity p'))" by (simp add: live_def)
    from res top full show ?thesis by (intro exI [of _ "capacity p'"] conjI)
  qed
  then obtain r0 where res: "fst (insertRecord d p') = Inr r0"
    and nl: "\<not> live p' (unat r0)" and below: "\<forall>j < unat r0. live p' j"
    by (elim exE conjE)
  have le: "unat r0 \<le> s"
  proof (rule ccontr)
    assume "\<not> unat r0 \<le> s"
    then have "s < unat r0" by simp
    with below have "live p' s" by simp
    with not_s show False by simp
  qed
  have iff: "unat r0 = s \<longleftrightarrow> (\<forall>j < s. live p j)"
  proof
    assume e: "unat r0 = s"
    show "\<forall>j < s. live p j"
    proof (intro allI impI)
      fix j assume "j < s"
      with e below have "live p' j" by simp
      then show "live p j" by (simp add: lq(1))
    qed
  next
    assume all: "\<forall>j < s. live p j"
    show "unat r0 = s"
    proof (rule ccontr)
      assume "unat r0 \<noteq> s"
      with le have lt: "unat r0 < s" by simp
      with all have "live p (unat r0)" by simp
      with lt have "live p' (unat r0)" by (simp add: lq(1))
      with nl show False by simp
    qed
  qed
  have dir: "r0 < capacity p' \<and> offset (slot_directory p' (unat r0)) = INVALID_SLOT_OFFSET"
    if ex: "\<exists>j. unat slot_id < j \<and> live p j"
  proof -
    from ex obtain j where j: "s < j" "live p j" by (auto simp: s_def)
    then have "live p' j" by (simp add: lq(1))
    then have "j < unat (capacity p')" by (rule lq(2))
    with j(1) le have c: "unat r0 < unat (capacity p')" by simp
    with nl have "offset (slot_directory p' (unat r0)) = INVALID_SLOT_OFFSET"
      by (simp add: live_def)
    with c show ?thesis by (simp add: word_less_nat_alt)
  qed
  from res have f1: "insertRecord d p' = (Inr r0, snd (insertRecord d p'))"
    by (simp add: prod_eq_iff)
  from le have f2: "r0 \<le> slot_id" by (simp add: s_def word_le_nat_alt)
  from iff have f3: "r0 = slot_id \<longleftrightarrow> (\<forall>j < unat slot_id. live p j)"
    by (simp add: s_def word_unat_eq_iff)
  from dir have f4: "(\<exists>j. unat slot_id < j \<and> live p j) \<longrightarrow>
      r0 < capacity p' \<and> offset (slot_directory p' (unat r0)) = INVALID_SLOT_OFFSET"
    by (rule impI)
  from f1 nl below f2 f3 f4 show ?thesis
    by (intro exI [of _ r0] exI [of _ "snd (insertRecord d p')"] conjI)
qed

theorem C8_slot_reuse_witness:
  "\<exists>r p''. insertRecord (fill_record 7 4) page_d = (Inr r, p'') \<and> r = 1 \<and>
     \<not> live page_d (unat r) \<and> r < capacity page_d"
proof -
  have a: "1 < capacity page_c" "live page_c (unat (1 :: u32))"
    "1 \<le> data_size (fill_record 7 4)" "data_size (fill_record 7 4) \<le> getFreeSpace page_d"
    by (simp_all add: live_def page_defs eval_defs)
  have b: "\<forall>j < unat (1 :: u32). live page_c j"
    by (simp add: live_def page_defs eval_defs)
  have c: "\<exists>j. unat (1 :: u32) < j \<and> live page_c j"
    by (rule exI [of _ 2]) (simp add: live_def page_defs eval_defs)
  from C8_slot_reuse [OF reachable_page_c a(1,2) ex_delete_d a(3,4)]
  obtain r p'' where h: "insertRecord (fill_record 7 4) page_d = (Inr r, p'')"
    "\<not> live page_d (unat r)"
    "r = 1 \<longleftrightarrow> (\<forall>j < unat (1 :: u32). live page_c j)"
    "(\<exists>j. unat (1 :: u32) < j \<and> live page_c j) \<longrightarrow>
       r < capacity page_d \<and> offset (slot_directory page_d (unat r)) = INVALID_SLOT_OFFSET"
    by (elim exE conjE)
  from h(3) b have r: "r = 1" by (rule iffD2)
  from h(4) c have "r < capacity page_d" by (elim impE conjE)
  with h(1) h(2) r show ?thesis by (intro exI [of _ r] exI [of _ p''] conjI)
qed

lemma next_live_Some:
  assumes "next_live p cur = Some j"
  shows "cur \<le> j" "j < unat (capacity p)" "live p j" "\<And>i. cur \<le> i \<Longrightarrow> i < j \<Longrightarrow> \<not> live p i"
proof -
  from assms obtain k where k: "k < length [cur..<unat (capacity p)]"
    "live p ([cur..<unat (capacity p)] ! k)" "j = [cur..<unat (capacity p)] ! k"
    "\<forall>m < k. \<not> live p ([cur..<unat (capacity p)] ! m)"
    unfolding next_live_def find_Some_iff by blast
  from k(1) have kl: "cur + k < unat (capacity p)" by simp
  then have j: "j = cur + k" using k(3) by simp
  show "cur \<le> j" "j < unat (capacity p)" using j kl by simp_all
  show "live p j" using k(2) k(3) by simp
  fix i assume i: "cur \<le> i" "i < j"
  then have "i - cur < k" using j by simp
  with k(4) have "\<not> live p ([cur..<unat (capacity p)] ! (i - cur))" by blast
  moreover have "[cur..<unat (capacity p)] ! (i - cur) = i"
    using i j kl by simp
  ultimately show "\<not> live p i" by simp
qed

lemma next_live_None: "next_live p cur = None \<longleftrightarrow> \<not> (\<exists>j. cur \<le> j \<and> live p j)"
  by (auto simp: next_live_def find_None_iff live_def)

lemma scanner_loop_found: "scanner_loop s t True = (Inr t, s)"
  by (simp add: scanner_loop.simps [of s t True])

text \<open>The loop of the scanner computes \<open>next_live\<close> from the cursor.\<close>

lemma scanner_loop_next_live:
  "scanner_loop s t False =
     (case next_live (page s) (unat (cur_slot s)) of
        Some j \<Rightarrow> (Inr (of_nat j), s\<lparr>cur_slot := of_nat j + 1\<rparr>)
      | None \<Rightarrow> (Inr t, s\<lparr>cur_slot := max (cur_slot s) (capacity (page s))\<rparr>))"
proof (induction "unat (capacity (page s)) - unat (cur_slot s)" arbitrary: s)
  case 0
  then have ge: "unat (capacity (page s)) \<le> unat (cur_slot s)" by simp
  then have "\<not> cur_slot s < capacity (page s)" by (simp add: word_less_nat_alt)
  then have "scanner_loop s t False = (Inr t, s)"
    by (simp add: scanner_loop.simps [of s t False])
  moreover from ge have "next_live (page s) (unat (cur_slot s)) = None"
    by (simp add: next_live_def)
  moreover from ge have "capacity (page s) \<le> cur_slot s" by (simp add: word_le_nat_alt)
  then have "max (cur_slot s) (capacity (page s)) = cur_slot s" by (rule max_absorb1)
  ultimately show ?case by simp
next
  case (Suc n)
  then have lt': "unat (cur_slot s) < unat (capacity (page s))" by simp
  then have lt: "cur_slot s < capacity (page s)" by (simp add: word_less_nat_alt)
  have suc: "unat (cur_slot s + 1) = Suc (unat (cur_slot s))" by (rule u32_succ [OF lt])
  have g: "priv_getSlotInfo (cur_slot s) (page s) = Inr (slot_directory (page s) (unat (cur_slot s)))"
    using lt by (simp add: priv_getSlotInfo_def)
  have upt: "[unat (cur_slot s)..<unat (capacity (page s))] =
      unat (cur_slot s) # [Suc (unat (cur_slot s))..<unat (capacity (page s))]"
    using lt' by (rule upt_conv_Cons)
  show ?case
  proof (cases "live (page s) (unat (cur_slot s))")
    case True
    then have "offset (slot_directory (page s) (unat (cur_slot s))) \<noteq> INVALID_SLOT_OFFSET"
      by (simp add: live_def)
    then have "scanner_loop s t False = (Inr (cur_slot s), s\<lparr>cur_slot := cur_slot s + 1\<rparr>)"
      using lt g by (simp add: scanner_loop.simps [of s t False] scanner_loop_found)
    moreover have "next_live (page s) (unat (cur_slot s)) = Some (unat (cur_slot s))"
      using True by (simp add: next_live_def upt)
    ultimately show ?thesis by simp
  next
    case False
    with lt' have inv: "offset (slot_directory (page s) (unat (cur_slot s))) = INVALID_SLOT_OFFSET"
      by (simp add: live_def)
    let ?s' = "s\<lparr>cur_slot := cur_slot s + 1\<rparr>"
    have step: "scanner_loop s t False = scanner_loop ?s' t False"
      using lt g inv by (simp add: scanner_loop.simps [of s t False])
    have "n = unat (capacity (page ?s')) - unat (cur_slot ?s')"
      using Suc.hyps(2) suc by simp
    from Suc.hyps(1) [OF this]
    have ih: "scanner_loop ?s' t False =
       (case next_live (page s) (Suc (unat (cur_slot s))) of
          Some j \<Rightarrow> (Inr (of_nat j), s\<lparr>cur_slot := of_nat j + 1\<rparr>)
        | None \<Rightarrow> (Inr t, s\<lparr>cur_slot := max (cur_slot s + 1) (capacity (page s))\<rparr>))"
      by (simp add: suc split: option.split)
    have nl: "next_live (page s) (unat (cur_slot s)) = next_live (page s) (Suc (unat (cur_slot s)))"
      using False by (simp add: next_live_def upt)
    have "cur_slot s + 1 \<le> capacity (page s)" using lt by (rule inc_le)
    then have "max (cur_slot s + 1) (capacity (page s)) = capacity (page s)"
      by (rule max_absorb2)
    moreover from lt have "max (cur_slot s) (capacity (page s)) = capacity (page s)"
      by (simp add: max_absorb2)
    ultimately have mx: "max (cur_slot s + 1) (capacity (page s)) = max (cur_slot s) (capacity (page s))"
      by simp
    show ?thesis unfolding step ih nl mx ..
  qed
qed

lemma scanner_getNext_next_live:
  "scanner_getNext s =
     (case next_live (page s) (unat (cur_slot s)) of
        Some j \<Rightarrow> (Inr (of_nat j), s\<lparr>cur_slot := of_nat j + 1\<rparr>)
      | None \<Rightarrow> (Inr INVALID_SLOT_ID, s\<lparr>cur_slot := max (cur_slot s) (capacity (page s))\<rparr>))"
  by (simp add: scanner_getNext_def scanner_loop_next_live)

lemma u32_of_nat_below:
  assumes "j < unat (c :: u32)"
  shows "unat (of_nat j :: u32) = j" "unat (of_nat j + 1 :: u32) = j + 1"
    "(of_nat j :: u32) \<noteq> INVALID_SLOT_ID"
proof -
  from assms show a: "unat (of_nat j :: u32) = j" by (simp add: le_unat_uoi [of j c])
  have "unat c < 4294967296" using unsigned_less [of c, where ?'a = nat] by simp
  with assms have b: "j < 4294967295" by simp
  with a show "unat (of_nat j + 1 :: u32) = j + 1" by (simp add: u32_add)
  from a b have "unat (of_nat j :: u32) \<noteq> unat INVALID_SLOT_ID"
    by (simp add: INVALID_SLOT_ID_def)
  then show "(of_nat j :: u32) \<noteq> INVALID_SLOT_ID" by auto
qed

lemma scanner_getNext_found:
  assumes "\<exists>j. unat (cur_slot s) \<le> j \<and> live (page s) j"
  shows "\<exists>r. scanner_getNext s = (Inr r, s\<lparr>cur_slot := r + 1\<rparr>) \<and> r \<noteq> INVALID_SLOT_ID \<and>
           unat (cur_slot s) \<le> unat r \<and> live (page s) (unat r) \<and>
           (\<forall>j. unat (cur_slot s) \<le> j \<and> j < unat r \<longrightarrow> \<not> live (page s) j) \<and>
           unat (r + 1) = unat r + 1"
proof -
  from assms obtain j where j: "next_live (page s) (unat (cur_slot s)) = Some j"
    using next_live_None [of "page s" "unat (cur_slot s)"] by auto
  note nl = next_live_Some [OF j]
  note w = u32_of_nat_below [OF nl(2)]
  have "scanner_getNext s = (Inr (of_nat j), s\<lparr>cur_slot := of_nat j + 1\<rparr>)"
    by (simp add: scanner_getNext_next_live j)
  moreover have "\<forall>i. unat (cur_slot s) \<le> i \<and> i < unat (of_nat j :: u32) \<longrightarrow> \<not> live (page s) i"
    using nl(4) by (simp add: w(1))
  ultimately show ?thesis using nl(1) nl(3) w by (intro exI [of _ "of_nat j"]) simp
qed

lemma scanner_getNext_exhausted:
  assumes "\<not> (\<exists>j. unat (cur_slot s) \<le> j \<and> live (page s) j)"
  shows "scanner_getNext s =
    (Inr INVALID_SLOT_ID, s\<lparr>cur_slot := max (cur_slot s) (capacity (page s))\<rparr>)"
  using assms next_live_None [of "page s" "unat (cur_slot s)"]
  by (simp add: scanner_getNext_next_live)

lemma scanner_getNext_page: "page (snd (scanner_getNext s)) = page s"
  by (simp add: scanner_getNext_next_live split: option.split)

lemma scanner_getNext_cursor: "unat (cur_slot s) \<le> unat (cur_slot (snd (scanner_getNext s)))"
proof (cases "\<exists>j. unat (cur_slot s) \<le> j \<and> live (page s) j")
  case True
  from scanner_getNext_found [OF True] show ?thesis by auto
next
  case False
  have "cur_slot s \<le> max (cur_slot s) (capacity (page s))" by simp
  then show ?thesis
    by (simp add: scanner_getNext_exhausted [OF False] word_le_nat_alt)
qed

lemma scanner_calls_page: "page (scanner_calls n s) = page s"
  by (induction n) (simp_all add: scanner_getNext_page)

lemma scanner_calls_cursor:
  "m \<le> n \<Longrightarrow> unat (cur_slot (scanner_calls m s)) \<le> unat (cur_slot (scanner_calls n s))"
proof (induction n)
  case 0
  then show ?case by simp
next
  case (Suc n)
  show ?case
  proof (cases "m = Suc n")
    case True
    then show ?thesis by simp
  next
    case False
    with Suc.prems have "m \<le> n" by simp
    from Suc.IH [OF this] scanner_getNext_cursor [of "scanner_calls n s"]
    show ?thesis by simp
  qed
qed

lemma scanner_valid_result:
  assumes "fst (scanner_getNext s) = Inr r" and "r \<noteq> INVALID_SLOT_ID"
  shows "unat (cur_slot s) \<le> unat r" "unat (cur_slot (snd (scanner_getNext s))) = unat r + 1"
proof -
  have ex: "\<exists>j. unat (cur_slot s) \<le> j \<and> live (page s) j"
  proof (rule ccontr)
    assume "\<not> (\<exists>j. unat (cur_slot s) \<le> j \<and> live (page s) j)"
    from scanner_getNext_exhausted [OF this] assms show False by simp
  qed
  from scanner_getNext_found [OF ex] assms(1)
  show "unat (cur_slot s) \<le> unat r" "unat (cur_slot (snd (scanner_getNext s))) = unat r + 1"
    by auto
qed

text \<open>
  Claim C9. A scanner starts with the cursor 0, and \<open>reset\<close> sets it to 0. On every
  page, \<open>getNext\<close> returns the smallest live slot id at or after the cursor and sets the
  cursor to that id plus one. When no slot id at or after the cursor is live (so when the
  cursor is at or beyond \<open>capacity\<close>), it returns \<open>INVALID_SLOT_ID\<close>, and so does every
  later call. The slot ids returned by successive calls are strictly ascending, free
  entries are skipped, and the page the scanner holds is never changed.
\<close>

theorem C9_scanner_getNext:
  "cur_slot (HeapPageScanner_new pg) = 0 \<and> page (HeapPageScanner_new pg) = pg \<and>
   cur_slot (scanner_reset pg s0) = 0 \<and> page (scanner_reset pg s0) = pg \<and>
   page (snd (scanner_getNext s)) = page s \<and>
   ((\<exists>j. unat (cur_slot s) \<le> j \<and> live (page s) j) \<longrightarrow>
      (\<exists>r. fst (scanner_getNext s) = Inr r \<and> r \<noteq> INVALID_SLOT_ID \<and>
           unat (cur_slot s) \<le> unat r \<and> live (page s) (unat r) \<and>
           (\<forall>j. unat (cur_slot s) \<le> j \<and> j < unat r \<longrightarrow> \<not> live (page s) j) \<and>
           unat (cur_slot (snd (scanner_getNext s))) = unat r + 1)) \<and>
   (\<not> (\<exists>j. unat (cur_slot s) \<le> j \<and> live (page s) j) \<longrightarrow>
      (\<forall>n. fst (scanner_getNext (scanner_calls n s)) = Inr INVALID_SLOT_ID)) \<and>
   (capacity (page s) \<le> cur_slot s \<longrightarrow> fst (scanner_getNext s) = Inr INVALID_SLOT_ID) \<and>
   (\<forall>m n r r'. m < n \<and>
        fst (scanner_getNext (scanner_calls m s)) = Inr r \<and> r \<noteq> INVALID_SLOT_ID \<and>
        fst (scanner_getNext (scanner_calls n s)) = Inr r' \<and> r' \<noteq> INVALID_SLOT_ID \<longrightarrow>
        r < r')"
proof -
  have init: "cur_slot (HeapPageScanner_new pg) = 0 \<and> page (HeapPageScanner_new pg) = pg \<and>
     cur_slot (scanner_reset pg s0) = 0 \<and> page (scanner_reset pg s0) = pg"
    by (simp add: HeapPageScanner_new_def scanner_reset_def)
  have found: "(\<exists>j. unat (cur_slot s) \<le> j \<and> live (page s) j) \<longrightarrow>
      (\<exists>r. fst (scanner_getNext s) = Inr r \<and> r \<noteq> INVALID_SLOT_ID \<and>
           unat (cur_slot s) \<le> unat r \<and> live (page s) (unat r) \<and>
           (\<forall>j. unat (cur_slot s) \<le> j \<and> j < unat r \<longrightarrow> \<not> live (page s) j) \<and>
           unat (cur_slot (snd (scanner_getNext s))) = unat r + 1)"
  proof
    assume "\<exists>j. unat (cur_slot s) \<le> j \<and> live (page s) j"
    from scanner_getNext_found [OF this]
    obtain r where r: "scanner_getNext s = (Inr r, s\<lparr>cur_slot := r + 1\<rparr>)" "r \<noteq> INVALID_SLOT_ID"
      "unat (cur_slot s) \<le> unat r" "live (page s) (unat r)"
      "\<forall>j. unat (cur_slot s) \<le> j \<and> j < unat r \<longrightarrow> \<not> live (page s) j"
      "unat (r + 1) = unat r + 1"
      by blast
    from r(1) r(6) have "fst (scanner_getNext s) = Inr r"
      "unat (cur_slot (snd (scanner_getNext s))) = unat r + 1"
      by simp_all
    with r(2-5) show "\<exists>r. fst (scanner_getNext s) = Inr r \<and> r \<noteq> INVALID_SLOT_ID \<and>
           unat (cur_slot s) \<le> unat r \<and> live (page s) (unat r) \<and>
           (\<forall>j. unat (cur_slot s) \<le> j \<and> j < unat r \<longrightarrow> \<not> live (page s) j) \<and>
           unat (cur_slot (snd (scanner_getNext s))) = unat r + 1"
      by blast
  qed
  have exhausted: "\<not> (\<exists>j. unat (cur_slot s) \<le> j \<and> live (page s) j) \<longrightarrow>
      (\<forall>n. fst (scanner_getNext (scanner_calls n s)) = Inr INVALID_SLOT_ID)"
  proof (intro impI allI)
    fix n assume none: "\<not> (\<exists>j. unat (cur_slot s) \<le> j \<and> live (page s) j)"
    have "\<not> (\<exists>j. unat (cur_slot (scanner_calls n s)) \<le> j \<and> live (page (scanner_calls n s)) j)"
    proof
      assume "\<exists>j. unat (cur_slot (scanner_calls n s)) \<le> j \<and> live (page (scanner_calls n s)) j"
      then obtain j where j: "unat (cur_slot (scanner_calls n s)) \<le> j" "live (page s) j"
        by (auto simp: scanner_calls_page)
      from scanner_calls_cursor [of 0 n s] j(1) have "unat (cur_slot s) \<le> j" by simp
      with j(2) none show False by blast
    qed
    from scanner_getNext_exhausted [OF this]
    show "fst (scanner_getNext (scanner_calls n s)) = Inr INVALID_SLOT_ID" by simp
  qed
  have beyond: "capacity (page s) \<le> cur_slot s \<longrightarrow> fst (scanner_getNext s) = Inr INVALID_SLOT_ID"
  proof
    assume "capacity (page s) \<le> cur_slot s"
    then have "\<not> (\<exists>j. unat (cur_slot s) \<le> j \<and> live (page s) j)"
      by (auto simp: live_def word_le_nat_alt)
    from scanner_getNext_exhausted [OF this]
    show "fst (scanner_getNext s) = Inr INVALID_SLOT_ID" by simp
  qed
  have asc: "\<forall>m n r r'. m < n \<and>
        fst (scanner_getNext (scanner_calls m s)) = Inr r \<and> r \<noteq> INVALID_SLOT_ID \<and>
        fst (scanner_getNext (scanner_calls n s)) = Inr r' \<and> r' \<noteq> INVALID_SLOT_ID \<longrightarrow>
        r < r'"
  proof (intro allI impI, elim conjE)
    fix m n r r'
    assume mn: "m < n"
      and a: "fst (scanner_getNext (scanner_calls m s)) = Inr r" "r \<noteq> INVALID_SLOT_ID"
      and b: "fst (scanner_getNext (scanner_calls n s)) = Inr r'" "r' \<noteq> INVALID_SLOT_ID"
    from scanner_valid_result(2) [OF a]
    have "unat (cur_slot (scanner_calls (Suc m) s)) = unat r + 1" by simp
    moreover from mn have "Suc m \<le> n" by simp
    from scanner_calls_cursor [OF this, of s]
    have "unat (cur_slot (scanner_calls (Suc m) s)) \<le> unat (cur_slot (scanner_calls n s))" .
    moreover from scanner_valid_result(1) [OF b]
    have "unat (cur_slot (scanner_calls n s)) \<le> unat r'" .
    ultimately have "unat r < unat r'" by simp
    then show "r < r'" by (simp add: word_less_nat_alt)
  qed
  from init scanner_getNext_page [of s] found exhausted beyond asc show ?thesis by blast
qed

text \<open>Scenario 6 on \<open>page_d\<close> (slots 0 and 2 live, slot 1 free): 0, 2, then the sentinel.\<close>

lemma ex_scan_d:
  "scanner_getNext (HeapPageScanner_new page_d) = (Inr 0, \<lparr>page = page_d, cur_slot = 1\<rparr>)"
  "scanner_getNext \<lparr>page = page_d, cur_slot = 1\<rparr> = (Inr 2, \<lparr>page = page_d, cur_slot = 3\<rparr>)"
  "scanner_getNext \<lparr>page = page_d, cur_slot = 3\<rparr> =
     (Inr INVALID_SLOT_ID, \<lparr>page = page_d, cur_slot = 3\<rparr>)"
  by (simp_all add: scanner_getNext_def HeapPageScanner_new_def scanner_loop.simps
      page_defs eval_defs)

theorem C9_scanner_getNext_witness:
  "(\<exists>r. fst (scanner_getNext (HeapPageScanner_new page_d)) = Inr r \<and> r \<noteq> INVALID_SLOT_ID \<and>
        live (page (HeapPageScanner_new page_d)) (unat r)) \<and>
   fst (scanner_getNext \<lparr>page = page_d, cur_slot = 3\<rparr>) = Inr INVALID_SLOT_ID"
proof -
  have "live (page (HeapPageScanner_new page_d)) 0"
    by (simp add: HeapPageScanner_new_def live_def page_defs eval_defs)
  then have a: "\<exists>j. unat (cur_slot (HeapPageScanner_new page_d)) \<le> j \<and>
      live (page (HeapPageScanner_new page_d)) j"
    by (intro exI [of _ 0]) (simp add: HeapPageScanner_new_def)
  have b: "capacity (page \<lparr>page = page_d, cur_slot = 3\<rparr>) \<le> cur_slot \<lparr>page = page_d, cur_slot = 3\<rparr>"
    by (simp add: page_defs eval_defs)
  note t1 = C9_scanner_getNext [of page_d "HeapPageScanner_new page_d" "HeapPageScanner_new page_d"]
  note t2 = C9_scanner_getNext [of page_d "HeapPageScanner_new page_d" "\<lparr>page = page_d, cur_slot = 3\<rparr>"]
  from t1 have "(\<exists>j. unat (cur_slot (HeapPageScanner_new page_d)) \<le> j \<and>
      live (page (HeapPageScanner_new page_d)) j) \<longrightarrow>
      (\<exists>r. fst (scanner_getNext (HeapPageScanner_new page_d)) = Inr r \<and> r \<noteq> INVALID_SLOT_ID \<and>
           unat (cur_slot (HeapPageScanner_new page_d)) \<le> unat r \<and>
           live (page (HeapPageScanner_new page_d)) (unat r) \<and>
           (\<forall>j. unat (cur_slot (HeapPageScanner_new page_d)) \<le> j \<and> j < unat r \<longrightarrow>
              \<not> live (page (HeapPageScanner_new page_d)) j) \<and>
           unat (cur_slot (snd (scanner_getNext (HeapPageScanner_new page_d)))) = unat r + 1)"
    by (elim conjE)
  with a have "\<exists>r. fst (scanner_getNext (HeapPageScanner_new page_d)) = Inr r \<and> r \<noteq> INVALID_SLOT_ID \<and>
        live (page (HeapPageScanner_new page_d)) (unat r)"
    by blast
  moreover from t2 have "capacity (page \<lparr>page = page_d, cur_slot = 3\<rparr>) \<le> cur_slot \<lparr>page = page_d, cur_slot = 3\<rparr> \<longrightarrow>
      fst (scanner_getNext \<lparr>page = page_d, cur_slot = 3\<rparr>) = Inr INVALID_SLOT_ID"
    by (elim conjE)
  with b have "fst (scanner_getNext \<lparr>page = page_d, cur_slot = 3\<rparr>) = Inr INVALID_SLOT_ID"
    by (rule rev_mp)
  ultimately show ?thesis by (rule conjI)
qed

lemma memmove_nothing: "memmove buf dst src 0 = buf"
  by (rule ext) (auto simp: memmove_def)

text \<open>
  Claim C10. On a reachable page every live entry has \<open>free_end \<le> offset\<close>,
  \<open>offset + length \<le> PAGE_SIZE\<close> and \<open>length \<ge> 1\<close>. So in a valid delete the shift size
  \<open>offset - free_space_end\<close> does not wrap around, and the test
  \<open>offset + length == free_space_end\<close> of \<open>_deleteRecord\<close> is false: the early return is
  never taken. What \<open>_deleteRecord\<close> does to the bytes stays inside the page: it reads the
  bytes of \<open>[free_end, offset)\<close> and writes them to \<open>[free_end + length, offset + length)\<close>,
  and every byte outside that range, so every byte below \<open>free_end + length\<close> and every
  byte from \<open>offset + length\<close> on, at or past \<open>PAGE_SIZE\<close> too, is as it was. Deleting
  the record at \<open>free_end\<close> goes through the general path, which moves no byte, changes
  no other entry and raises \<open>free_end\<close> by the length.
\<close>

theorem C10_delete_safety:
  assumes "reachable p" and "live p i" and "e = slot_directory p i"
  shows "free_space_end p \<le> offset e \<and>
         unat (offset e) + unat (length_rec e) \<le> unat PAGE_SIZE \<and>
         1 \<le> length_rec e \<and>
         unat (offset e - free_space_end p) = unat (offset e) - unat (free_space_end p) \<and>
         unat (free_space_begin p) \<le> unat (free_space_end p) \<and>
         unat (free_space_end p) + unat (offset e - free_space_end p) \<le> unat PAGE_SIZE \<and>
         unat (free_space_end p) + unat (length_rec e) + unat (offset e - free_space_end p)
           \<le> unat PAGE_SIZE \<and>
         offset e + length_rec e \<noteq> free_space_end p \<and>
         (\<forall>slot_id. unat slot_id = i \<longrightarrow>
            fst (priv_deleteRecord slot_id p) = Inr () \<and>
            (\<forall>k < unat (offset e) - unat (free_space_end p).
               data (snd (priv_deleteRecord slot_id p))
                 (unat (free_space_end p) + unat (length_rec e) + k) =
               data p (unat (free_space_end p) + k)) \<and>
            (\<forall>a. a < unat (free_space_end p) + unat (length_rec e) \<or>
                 unat (offset e) + unat (length_rec e) \<le> a \<longrightarrow>
               data (snd (priv_deleteRecord slot_id p)) a = data p a) \<and>
            (\<forall>a. a < unat (free_space_end p) \<or> unat PAGE_SIZE \<le> a \<longrightarrow>
               data (snd (priv_deleteRecord slot_id p)) a = data p a) \<and>
            (offset e = free_space_end p \<longrightarrow>
               data (snd (priv_deleteRecord slot_id p)) = data p \<and>
               (\<forall>j. j \<noteq> i \<longrightarrow>
                  slot_directory (snd (priv_deleteRecord slot_id p)) j = slot_directory p j) \<and>
               free_space_end (snd (priv_deleteRecord slot_id p)) =
                 free_space_end p + length_rec e))"
proof -
  from assms(1) have inv: "full_inv p" by (rule reachable_full_inv)
  then have ci: "core_inv p" by (simp add: full_inv_def)
  note lv = assms(2)
  note b = core_inv_live_bounds [OF ci lv, unfolded slot_off_def slot_len_def, folded assms(3)]
  from ci have fb_le: "unat (free_space_begin p) \<le> unat (free_space_end p)"
    by (simp add: core_inv_def)
  from b(1) have le: "free_space_end p \<le> offset e" by (simp add: word_le_nat_alt)
  from b(2) have in_page: "unat (offset e) + unat (length_rec e) \<le> unat PAGE_SIZE"
    by (simp add: PAGE_SIZE_def)
  from b(3) have "length_rec e \<noteq> 0" by auto
  then have pos: "1 \<le> length_rec e" by (simp add: u32_one_le)
  from b(1) have sub: "unat (offset e - free_space_end p) = unat (offset e) - unat (free_space_end p)"
    by (rule u32_sub)
  from sub b have src: "unat (free_space_end p) + unat (offset e - free_space_end p) \<le> unat PAGE_SIZE"
    and dst: "unat (free_space_end p) + unat (length_rec e) + unat (offset e - free_space_end p)
           \<le> unat PAGE_SIZE"
    by (simp_all add: PAGE_SIZE_def)
  from early_return_dead [OF ci lv]
  have dead: "offset e + length_rec e \<noteq> free_space_end p" by (simp add: assms(3))
  have del: "fst (priv_deleteRecord slot_id p) = Inr () \<and>
            (\<forall>k < unat (offset e) - unat (free_space_end p).
               data (snd (priv_deleteRecord slot_id p))
                 (unat (free_space_end p) + unat (length_rec e) + k) =
               data p (unat (free_space_end p) + k)) \<and>
            (\<forall>a. a < unat (free_space_end p) + unat (length_rec e) \<or>
                 unat (offset e) + unat (length_rec e) \<le> a \<longrightarrow>
               data (snd (priv_deleteRecord slot_id p)) a = data p a) \<and>
            (\<forall>a. a < unat (free_space_end p) \<or> unat PAGE_SIZE \<le> a \<longrightarrow>
               data (snd (priv_deleteRecord slot_id p)) a = data p a) \<and>
            (offset e = free_space_end p \<longrightarrow>
               data (snd (priv_deleteRecord slot_id p)) = data p \<and>
               (\<forall>j. j \<noteq> i \<longrightarrow>
                  slot_directory (snd (priv_deleteRecord slot_id p)) j = slot_directory p j) \<and>
               free_space_end (snd (priv_deleteRecord slot_id p)) =
                 free_space_end p + length_rec e)"
    if u: "unat slot_id = i" for slot_id :: u32
  proof -
    from lv u have lv': "live p (unat slot_id)" by simp
    from lv u have sid: "slot_id < capacity p" by (simp add: live_def word_less_nat_alt)
    note eq = priv_deleteRecord_eq [OF ci sid lv', unfolded u, folded assms(3)]
    have ok: "fst (priv_deleteRecord slot_id p) = Inr ()" by (simp add: eq)
    have dt: "data (snd (priv_deleteRecord slot_id p)) =
        memmove (data p) (unat (free_space_end p) + unat (length_rec e)) (unat (free_space_end p))
          (unat (offset e) - unat (free_space_end p))"
      by (simp add: eq sub)
    have moved: "\<forall>k < unat (offset e) - unat (free_space_end p).
               data (snd (priv_deleteRecord slot_id p))
                 (unat (free_space_end p) + unat (length_rec e) + k) =
               data p (unat (free_space_end p) + k)"
      by (simp add: dt memmove_moved)
    have frame: "data (snd (priv_deleteRecord slot_id p)) a = data p a"
      if "a < unat (free_space_end p) + unat (length_rec e) \<or>
          unat (offset e) + unat (length_rec e) \<le> a" for a
    proof -
      from that b(1)
      have "a < unat (free_space_end p) + unat (length_rec e) \<or>
            unat (free_space_end p) + unat (length_rec e)
              + (unat (offset e) - unat (free_space_end p)) \<le> a"
        by auto
      then show ?thesis unfolding dt by (rule memmove_other)
    qed
    then have frame1: "\<forall>a. a < unat (free_space_end p) + unat (length_rec e) \<or>
                 unat (offset e) + unat (length_rec e) \<le> a \<longrightarrow>
               data (snd (priv_deleteRecord slot_id p)) a = data p a"
      by blast
    have frame2: "\<forall>a. a < unat (free_space_end p) \<or> unat PAGE_SIZE \<le> a \<longrightarrow>
               data (snd (priv_deleteRecord slot_id p)) a = data p a"
    proof (intro allI impI)
      fix a assume "a < unat (free_space_end p) \<or> unat PAGE_SIZE \<le> a"
      with in_page
      have "a < unat (free_space_end p) + unat (length_rec e) \<or>
          unat (offset e) + unat (length_rec e) \<le> a"
        by auto
      then show "data (snd (priv_deleteRecord slot_id p)) a = data p a" by (rule frame)
    qed
    have zero: "data (snd (priv_deleteRecord slot_id p)) = data p \<and>
               (\<forall>j. j \<noteq> i \<longrightarrow>
                  slot_directory (snd (priv_deleteRecord slot_id p)) j = slot_directory p j) \<and>
               free_space_end (snd (priv_deleteRecord slot_id p)) =
                 free_space_end p + length_rec e"
      if z: "offset e = free_space_end p"
    proof -
      have d: "data (snd (priv_deleteRecord slot_id p)) = data p"
        by (simp add: eq z memmove_nothing)
      have o: "slot_directory (snd (priv_deleteRecord slot_id p)) j = slot_directory p j"
        if "j \<noteq> i" for j
      proof (cases "live p j")
        case False
        with that show ?thesis
          using delete_directory_at [OF sid, of "offset e" "length_rec e" j]
          by (simp add: eq u)
      next
        case True
        from core_inv_live_bounds(1) [OF ci True]
        have "\<not> offset (slot_directory p j) < offset e"
          by (simp add: z slot_off_def word_less_nat_alt)
        with that show ?thesis
          using delete_directory_at [OF sid, of "offset e" "length_rec e" j]
          by (simp add: eq u)
      qed
      have f: "free_space_end (snd (priv_deleteRecord slot_id p)) = free_space_end p + length_rec e"
        by (simp add: eq)
      from d o f show ?thesis by blast
    qed
    then have zero': "offset e = free_space_end p \<longrightarrow>
               data (snd (priv_deleteRecord slot_id p)) = data p \<and>
               (\<forall>j. j \<noteq> i \<longrightarrow>
                  slot_directory (snd (priv_deleteRecord slot_id p)) j = slot_directory p j) \<and>
               free_space_end (snd (priv_deleteRecord slot_id p)) =
                 free_space_end p + length_rec e"
      by (rule impI)
    from ok moved frame1 frame2 zero' show ?thesis by (intro conjI)
  qed
  then have del': "\<forall>slot_id. unat slot_id = i \<longrightarrow>
            fst (priv_deleteRecord slot_id p) = Inr () \<and>
            (\<forall>k < unat (offset e) - unat (free_space_end p).
               data (snd (priv_deleteRecord slot_id p))
                 (unat (free_space_end p) + unat (length_rec e) + k) =
               data p (unat (free_space_end p) + k)) \<and>
            (\<forall>a. a < unat (free_space_end p) + unat (length_rec e) \<or>
                 unat (offset e) + unat (length_rec e) \<le> a \<longrightarrow>
               data (snd (priv_deleteRecord slot_id p)) a = data p a) \<and>
            (\<forall>a. a < unat (free_space_end p) \<or> unat PAGE_SIZE \<le> a \<longrightarrow>
               data (snd (priv_deleteRecord slot_id p)) a = data p a) \<and>
            (offset e = free_space_end p \<longrightarrow>
               data (snd (priv_deleteRecord slot_id p)) = data p \<and>
               (\<forall>j. j \<noteq> i \<longrightarrow>
                  slot_directory (snd (priv_deleteRecord slot_id p)) j = slot_directory p j) \<and>
               free_space_end (snd (priv_deleteRecord slot_id p)) =
                 free_space_end p + length_rec e)"
    by (intro allI impI)
  from le in_page pos sub fb_le src dst dead del' show ?thesis by (intro conjI)
qed

text \<open>
  On \<open>page_c\<close> (records of 10, 15 and 20 bytes in slots 0, 1 and 2): deleting slot 2, the
  record at \<open>free_end\<close>, moves no byte; deleting slot 0 moves the 35 bytes of the other two
  records from 4051 to 4061 and leaves every byte from 4096 on as it was.
\<close>

theorem C10_delete_safety_witness:
  "free_space_end page_c \<le> offset (slot_directory page_c 2) \<and>
   offset (slot_directory page_c 2) + length_rec (slot_directory page_c 2) \<noteq> free_space_end page_c \<and>
   fst (priv_deleteRecord 2 page_c) = Inr () \<and>
   data (snd (priv_deleteRecord 2 page_c)) = data page_c \<and>
   fst (priv_deleteRecord 0 page_c) = Inr () \<and>
   data (snd (priv_deleteRecord 0 page_c)) 4061 = data page_c 4051 \<and>
   data (snd (priv_deleteRecord 0 page_c)) 4096 = data page_c 4096"
proof -
  have lv: "live page_c 2" by (simp add: live_def page_defs eval_defs)
  have u: "unat (2 :: u32) = 2" by simp
  have z: "offset (slot_directory page_c 2) = free_space_end page_c"
    by (simp add: page_defs eval_defs)
  note t = C10_delete_safety [OF reachable_page_c lv refl]
  from t have a: "free_space_end page_c \<le> offset (slot_directory page_c 2)"
    by (elim conjE)
  from t have b: "offset (slot_directory page_c 2) + length_rec (slot_directory page_c 2) \<noteq> free_space_end page_c"
    by (elim conjE)
  note t2 = t [THEN conjunct2, THEN conjunct2, THEN conjunct2, THEN conjunct2, THEN conjunct2,
      THEN conjunct2, THEN conjunct2, THEN conjunct2, THEN spec, THEN mp, OF u]
  from t2 have c: "fst (priv_deleteRecord 2 page_c) = Inr ()" by (rule conjunct1)
  from t2 have "offset (slot_directory page_c 2) = free_space_end page_c \<longrightarrow>
               data (snd (priv_deleteRecord 2 page_c)) = data page_c \<and>
               (\<forall>j. j \<noteq> 2 \<longrightarrow>
                  slot_directory (snd (priv_deleteRecord 2 page_c)) j = slot_directory page_c j) \<and>
               free_space_end (snd (priv_deleteRecord 2 page_c)) =
                 free_space_end page_c + length_rec (slot_directory page_c 2)"
    by (elim conjE)
  from mp [OF this z] have d: "data (snd (priv_deleteRecord 2 page_c)) = data page_c"
    by (rule conjunct1)
  have lv0: "live page_c 0" by (simp add: live_def page_defs eval_defs)
  have u0: "unat (0 :: u32) = 0" by simp
  have v: "unat (offset (slot_directory page_c 0)) = 4086"
    "unat (length_rec (slot_directory page_c 0)) = 10" "unat (free_space_end page_c) = 4051"
    by (simp_all add: page_defs eval_defs)
  note s = C10_delete_safety [OF reachable_page_c lv0 refl]
  note s2 = s [THEN conjunct2, THEN conjunct2, THEN conjunct2, THEN conjunct2, THEN conjunct2,
      THEN conjunct2, THEN conjunct2, THEN conjunct2, THEN spec, THEN mp, OF u0]
  from s2 have c0: "fst (priv_deleteRecord 0 page_c) = Inr ()" by (rule conjunct1)
  from s2 have "\<forall>k < unat (offset (slot_directory page_c 0)) - unat (free_space_end page_c).
               data (snd (priv_deleteRecord 0 page_c))
                 (unat (free_space_end page_c) + unat (length_rec (slot_directory page_c 0)) + k) =
               data page_c (unat (free_space_end page_c) + k)"
    by (elim conjE)
  from this [THEN spec, of 0] have m: "data (snd (priv_deleteRecord 0 page_c)) 4061 = data page_c 4051"
    by (simp add: v)
  from s2 have "\<forall>a. a < unat (free_space_end page_c) \<or> unat PAGE_SIZE \<le> a \<longrightarrow>
               data (snd (priv_deleteRecord 0 page_c)) a = data page_c a"
    by (elim conjE)
  from this [THEN spec, of 4096] have n: "data (snd (priv_deleteRecord 0 page_c)) 4096 = data page_c 4096"
    by (simp add: PAGE_SIZE_def)
  from a b c d c0 m n show ?thesis by (intro conjI)
qed

end
